theory Spec2Isabelle
  imports Main "HOL-Library.Sublist"
begin

section \<open>JavaScript values used by the modelled components\<close>

text \<open>
  The components are TypeScript running in a browser. A property that may be absent
  (\<^verbatim>\<open>field?: T\<close>, \<^verbatim>\<open>undefined\<close>, \<^verbatim>\<open>null\<close>) is an \<open>option\<close>. A \<^verbatim>\<open>Set<string>\<close> is
  read by the modelled code only through \<^verbatim>\<open>has\<close>, \<^verbatim>\<open>add\<close> and \<^verbatim>\<open>delete\<close>, so it is a
  \<open>string set\<close>; its insertion order is not modelled. Numbers are modelled as \<open>int\<close>: the
  modelled arithmetic is on integers, where \<^verbatim>\<open>%\<close>, \<^verbatim>\<open>*\<close> and an exact \<^verbatim>\<open>/\<close> agree with the
  integer operations below.
\<close>

text \<open>Truthiness of a \<^verbatim>\<open>string | undefined | null\<close>: present and not the empty string.\<close>

definition truthyStr :: "string option \<Rightarrow> bool" where
  "truthyStr v = (case v of None \<Rightarrow> False | Some s \<Rightarrow> s \<noteq> [])"

text \<open>Truthiness of a \<^verbatim>\<open>number | undefined\<close> (integers only): present and not zero.\<close>

definition truthyNum :: "int option \<Rightarrow> bool" where
  "truthyNum v = (case v of None \<Rightarrow> False | Some n \<Rightarrow> n \<noteq> 0)"

text \<open>The remainder operator \<^verbatim>\<open>%\<close> on integers: the sign follows the dividend.\<close>

definition jsRem :: "int \<Rightarrow> int \<Rightarrow> int" where
  "jsRem a b = sgn a * (\<bar>a\<bar> mod \<bar>b\<bar>)"

text \<open>An awaited promise settles with a value or is rejected (the \<^verbatim>\<open>await\<close> throws).\<close>

datatype 'a settled = Resolved 'a | Rejected

section \<open>Role-permission panel\<close>

text \<open>
  The tree of the panel: a \<^verbatim>\<open>MenuNode\<close> has an id and optional children, each child a
  \<^verbatim>\<open>MenuNode\<close> or a \<^verbatim>\<open>PermissionNode\<close>. The code tells them apart by \<^verbatim>\<open>'code' in node\<close>;
  \<open>PermissionNode\<close> is a node with that key. The other fields (name, label, parent_id,
  permission_count) are not read by the functions modelled here.
\<close>

datatype tree_node =
  MenuNode string "tree_node list option"
| PermissionNode string

record panel_state =
  treeData :: "tree_node list"
  selectedMenuIds :: "string set"
  selectedPermissions :: "string set"
  selectedMenuId :: "string option"

text \<open>\<^verbatim>\<open>togglePermission(permissionId)\<close>.\<close>

definition togglePermission :: "string \<Rightarrow> panel_state \<Rightarrow> panel_state" where
  "togglePermission permissionId st =
     (if permissionId \<in> selectedPermissions st
      then st\<lparr>selectedPermissions := selectedPermissions st - {permissionId}\<rparr>
      else st\<lparr>selectedPermissions := insert permissionId (selectedPermissions st)\<rparr>)"

text \<open>
  The template binds each permission's checkbox with
  \<^verbatim>\<open>:checked="selectedPermissions.has(permission.id)"\<close>.
\<close>

definition permissionChecked :: "panel_state \<Rightarrow> string \<Rightarrow> bool" where
  "permissionChecked st permissionId = (permissionId \<in> selectedPermissions st)"

text \<open>
  All menu ids of a forest in document order (permission nodes are skipped, as every
  function of the panel skips them), and each menu id with the list of its ancestors'
  ids, nearest first. Both describe the tree itself and are what the statements about
  ancestors and descendants refer to.
\<close>

fun menuIds :: "tree_node list option \<Rightarrow> string list" where
  "menuIds None = []"
| "menuIds (Some []) = []"
| "menuIds (Some (PermissionNode p # ns)) = menuIds (Some ns)"
| "menuIds (Some (MenuNode i ch # ns)) = i # menuIds ch @ menuIds (Some ns)"

fun menuPaths :: "string list \<Rightarrow> tree_node list option \<Rightarrow> (string \<times> string list) list" where
  "menuPaths anc None = []"
| "menuPaths anc (Some []) = []"
| "menuPaths anc (Some (PermissionNode p # ns)) = menuPaths anc (Some ns)"
| "menuPaths anc (Some (MenuNode i ch # ns)) =
     (i, anc) # menuPaths (i # anc) ch @ menuPaths anc (Some ns)"

text \<open>
  \<^verbatim>\<open>getDescendantMenuIds(menuId)\<close> with its two local functions. The array \<^verbatim>\<open>ids\<close> they push
  to is passed along and returned; \<^verbatim>\<open>nodes\<close> may be \<^verbatim>\<open>undefined\<close> (\<open>None\<close>).
\<close>

fun collectDescendants :: "tree_node list option \<Rightarrow> string list \<Rightarrow> string list" where
  "collectDescendants None ids = ids"
| "collectDescendants (Some []) ids = ids"
| "collectDescendants (Some (PermissionNode p # nodes)) ids = collectDescendants (Some nodes) ids"
| "collectDescendants (Some (MenuNode i ch # nodes)) ids =
     collectDescendants (Some nodes) (collectDescendants ch (ids @ [i]))"

fun findAndCollect :: "string \<Rightarrow> tree_node list option \<Rightarrow> string list \<Rightarrow> string list" where
  "findAndCollect menuId None ids = ids"
| "findAndCollect menuId (Some []) ids = ids"
| "findAndCollect menuId (Some (PermissionNode p # nodes)) ids =
     findAndCollect menuId (Some nodes) ids"
| "findAndCollect menuId (Some (MenuNode i ch # nodes)) ids =
     findAndCollect menuId (Some nodes)
       (if i = menuId then collectDescendants ch ids else findAndCollect menuId ch ids)"

text \<open>
  \<^verbatim>\<open>findParent(nodes, targetId, parentId)\<close> of \<^verbatim>\<open>getAncestorMenuIds\<close>: the first menu with the
  target id ends the search; if it was reached with a truthy \<^verbatim>\<open>parentId\<close>, that id is pushed
  to \<^verbatim>\<open>ancestors\<close> and the search starts again from \<^verbatim>\<open>treeData\<close> for the parent, with no
  \<^verbatim>\<open>parentId\<close> argument. The result is the returned boolean with the array. That restart is
  not a structural recursion, so it takes one unit of \<open>fuel\<close>; \<open>None\<close> means the fuel ran
  out. \<open>getAncestorMenuIds_total\<close> shows that the fuel given by \<open>getAncestorMenuIds\<close>
  (the number of menus) is enough on every tree.
\<close>

fun findParent ::
  "nat \<Rightarrow> tree_node list \<Rightarrow> tree_node list option \<Rightarrow> string \<Rightarrow> string option \<Rightarrow> string list
     \<Rightarrow> (bool \<times> string list) option" where
  "findParent fuel td None targetId parentId ancestors = Some (False, ancestors)"
| "findParent fuel td (Some []) targetId parentId ancestors = Some (False, ancestors)"
| "findParent fuel td (Some (PermissionNode p # nodes)) targetId parentId ancestors =
     findParent fuel td (Some nodes) targetId parentId ancestors"
| "findParent fuel td (Some (MenuNode i ch # nodes)) targetId parentId ancestors =
     (if i = targetId then
        (if truthyStr parentId then
           (case fuel of
              0 \<Rightarrow> None
            | Suc k \<Rightarrow>
                (case findParent k td (Some td) (the parentId) None (ancestors @ [the parentId]) of
                   None \<Rightarrow> None
                 | Some (_, ancestors') \<Rightarrow> Some (True, ancestors')))
         else Some (True, ancestors))
      else
        (case findParent fuel td ch targetId (Some i) ancestors of
           None \<Rightarrow> None
         | Some (True, ancestors') \<Rightarrow> Some (True, ancestors')
         | Some (False, ancestors') \<Rightarrow> findParent fuel td (Some nodes) targetId parentId ancestors'))"

definition getDescendantMenuIds :: "tree_node list \<Rightarrow> string \<Rightarrow> string list" where
  "getDescendantMenuIds td menuId = findAndCollect menuId (Some td) []"

definition getAncestorMenuIds :: "tree_node list \<Rightarrow> string \<Rightarrow> string list option" where
  "getAncestorMenuIds td menuId =
     map_option snd (findParent (length (menuIds (Some td))) td (Some td) menuId None [])"

text \<open>\<^verbatim>\<open>hasSelectedDescendants(menuId)\<close>, on the current selection.\<close>

definition hasSelectedDescendants :: "tree_node list \<Rightarrow> string set \<Rightarrow> string \<Rightarrow> bool" where
  "hasSelectedDescendants td sel menuId =
     list_ex (\<lambda>id. id \<in> sel) (getDescendantMenuIds td menuId)"

text \<open>
  \<^verbatim>\<open>toggleMenu(menuId)\<close>. The three \<^verbatim>\<open>forEach\<close> loops are folds over the lists; the loop over
  the ancestors reads the selection as the earlier iterations left it.
  \<^verbatim>\<open>updateScrollAreaHeight\<close> only measures the layout and is left out.
\<close>

definition toggleMenu :: "string \<Rightarrow> panel_state \<Rightarrow> panel_state option" where
  "toggleMenu menuId st =
     (if menuId \<in> selectedMenuIds st then
        (let s1 = selectedMenuIds st - {menuId};
             descendants = getDescendantMenuIds (treeData st) menuId;
             s2 = fold (\<lambda>id s. s - {id}) descendants s1
         in case getAncestorMenuIds (treeData st) menuId of
              None \<Rightarrow> None
            | Some ancestors \<Rightarrow>
                Some (st\<lparr>selectedMenuIds :=
                          fold (\<lambda>ancestorId s.
                                  if \<not> hasSelectedDescendants (treeData st) s ancestorId
                                  then s - {ancestorId} else s) ancestors s2,
                        selectedMenuId :=
                          (if selectedMenuId st = Some menuId then None else selectedMenuId st)\<rparr>))
      else
        (let s1 = insert menuId (selectedMenuIds st);
             descendants = getDescendantMenuIds (treeData st) menuId;
             s2 = fold insert descendants s1
         in case getAncestorMenuIds (treeData st) menuId of
              None \<Rightarrow> None
            | Some ancestors \<Rightarrow> Some (st\<lparr>selectedMenuIds := fold insert ancestors s2\<rparr>)))"

text \<open>
  The ancestors and descendants of a menu id as the tree has them, and the closure the
  cascade is meant to keep: every selected menu's ancestors are selected.
\<close>

definition ancestorsOf :: "tree_node list \<Rightarrow> string \<Rightarrow> string set" where
  "ancestorsOf td m = set (concat (map snd (filter (\<lambda>e. fst e = m) (menuPaths [] (Some td)))))"

definition descendantsOf :: "tree_node list \<Rightarrow> string \<Rightarrow> string set" where
  "descendantsOf td m = set (map fst (filter (\<lambda>e. m \<in> set (snd e)) (menuPaths [] (Some td))))"

definition ancestorClosed :: "tree_node list \<Rightarrow> string set \<Rightarrow> bool" where
  "ancestorClosed td sel =
     list_all (\<lambda>e. fst e \<in> sel \<longrightarrow> set (snd e) \<subseteq> sel) (menuPaths [] (Some td))"

text \<open>
  Two abbreviations for the proofs: the head of a list if it has one, and what
  \<open>findParent\<close> does once it has found the target.
\<close>

definition hdOpt :: "'a list \<Rightarrow> 'a option" where
  "hdOpt xs = (case xs of [] \<Rightarrow> None | x # _ \<Rightarrow> Some x)"

definition restart :: "nat \<Rightarrow> tree_node list \<Rightarrow> string option \<Rightarrow> string list \<Rightarrow> (bool \<times> string list) option" where
  "restart fuel td parentId ancestors =
     (if truthyStr parentId then
        (case fuel of
           0 \<Rightarrow> None
         | Suc k \<Rightarrow>
             (case findParent k td (Some td) (the parentId) None (ancestors @ [the parentId]) of
                None \<Rightarrow> None
              | Some (_, ancestors') \<Rightarrow> Some (True, ancestors')))
      else Some (True, ancestors))"

section \<open>User list: the operation column\<close>

text \<open>
  Of a \<^verbatim>\<open>User\<close> row the delete option reads the id only; the other fields of the interface
  stay in the record's extension.
\<close>

record user =
  user_id :: string
  username :: string

text \<open>The \<^verbatim>\<open>disabled\<close> predicate of the option with code \<^verbatim>\<open>'delete'\<close> in \<^verbatim>\<open>useColumns\<close>.\<close>

definition deleteDisabled :: "'a user_scheme \<Rightarrow> bool" where
  "deleteDisabled row = (user_id row = ''a0000000-0000-0000-0000-000000000001'')"

section \<open>Scheduler job form: interval units\<close>

text \<open>
  The fields of a \<^verbatim>\<open>SchedulerJob\<close> (and of the form's values) that the conversion reads or
  writes; every other field is copied by the object spread and stays in the record's
  extension. \<open>interval_unit\<close> is the form's temporary field.
\<close>

record scheduler_job =
  job_id :: "string option"
  trigger_type :: string
  interval_seconds :: "int option"
  interval_unit :: "string option"

text \<open>
  \<^verbatim>\<open>setFormValuesWithConversion(data)\<close>: the values handed to \<^verbatim>\<open>formApi.setValues\<close>. The
  division is taken only where the remainder is zero, so it is exact.
\<close>

definition setFormValuesWithConversion :: "'a scheduler_job_scheme \<Rightarrow> 'a scheduler_job_scheme" where
  "setFormValuesWithConversion data =
     (if trigger_type data = ''interval'' \<and> truthyNum (interval_seconds data) then
        (let seconds = the (interval_seconds data) in
         if jsRem seconds 86400 = 0 then
           data\<lparr>interval_unit := Some ''days'', interval_seconds := Some (seconds div 86400)\<rparr>
         else if jsRem seconds 3600 = 0 then
           data\<lparr>interval_unit := Some ''hours'', interval_seconds := Some (seconds div 3600)\<rparr>
         else if jsRem seconds 60 = 0 then
           data\<lparr>interval_unit := Some ''minutes'', interval_seconds := Some (seconds div 60)\<rparr>
         else
           data\<lparr>interval_unit := Some ''seconds'', interval_seconds := Some seconds\<rparr>)
      else data\<lparr>interval_unit := Some ''seconds''\<rparr>)"

text \<open>
  \<^verbatim>\<open>onConfirm\<close> of the modal. \<open>valid\<close> is the outcome of \<^verbatim>\<open>formApi.validate()\<close>, \<open>formDataId\<close>
  is \<^verbatim>\<open>formData.value?.id\<close> and \<open>data\<close> the form's values. The result is the API call made
  with the converted data, or \<open>None\<close> when the form is not valid. \<open>toSeconds\<close> is the block
  of \<^verbatim>\<open>onConfirm\<close> that converts the interval back to seconds, \<^verbatim>\<open>data.interval_unit || 'seconds'\<close>
  included; \<^verbatim>\<open>delete data.interval_unit\<close> follows it.
\<close>

datatype 'a scheduler_call =
  UpdateSchedulerJob string "'a scheduler_job_scheme"
| CreateSchedulerJob "'a scheduler_job_scheme"

definition toSeconds :: "'a scheduler_job_scheme \<Rightarrow> 'a scheduler_job_scheme" where
  "toSeconds data =
     (if trigger_type data = ''interval'' \<and> truthyNum (interval_seconds data) then
        (let unit = (if truthyStr (interval_unit data) then the (interval_unit data) else ''seconds'');
             v = the (interval_seconds data);
             seconds = (if unit = ''minutes'' then v * 60
                        else if unit = ''hours'' then v * 3600
                        else if unit = ''days'' then v * 86400
                        else v)
         in data\<lparr>interval_seconds := Some seconds\<rparr>)
      else data)"

definition onConfirm ::
  "bool \<Rightarrow> string option \<Rightarrow> 'a scheduler_job_scheme \<Rightarrow> 'a scheduler_call option" where
  "onConfirm valid formDataId data =
     (if valid then
        (let data' = (toSeconds data)\<lparr>interval_unit := None\<rparr> in
         if truthyStr formDataId
         then Some (UpdateSchedulerJob (the formDataId) data')
         else Some (CreateSchedulerJob data'))
      else None)"

text \<open>
  The claim's words for the displayed pair: the largest of days, hours, minutes whose
  length divides the stored seconds, else seconds; and each unit's length in seconds.
\<close>

definition displayUnit :: "int \<Rightarrow> string" where
  "displayUnit s =
     (if 86400 dvd s then ''days'' else if 3600 dvd s then ''hours''
      else if 60 dvd s then ''minutes'' else ''seconds'')"

definition unitLength :: "string \<Rightarrow> int" where
  "unitLength u =
     (if u = ''days'' then 86400 else if u = ''hours'' then 3600
      else if u = ''minutes'' then 60 else 1)"

section \<open>Menu tree view\<close>

text \<open>
  A \<^verbatim>\<open>MenuTreeNode\<close> is a \<^verbatim>\<open>Menu\<close> with optional \<^verbatim>\<open>children\<close>. The view reads the id and the
  children; all other fields of \<^verbatim>\<open>Menu\<close> (name, title, icon, child_count, and the \<^verbatim>\<open>hasChild\<close>
  and \<^verbatim>\<open>meta\<close> the view adds) are the second argument.
\<close>

datatype 'a menu_tree_node =
  MenuTreeNode (menu_id: string) (menu_fields: 'a) (menu_children: "'a menu_tree_node list option")

text \<open>An item of the flattened list: \<^verbatim>\<open>{ node, level, isNode: true }\<close>.\<close>

record 'a tree_row =
  node :: "'a menu_tree_node"
  level :: nat
  isNode :: bool

text \<open>
  The reactive state of the view. The loaded tree is \<^verbatim>\<open>treeData\<close> in the source; the name is
  taken by the panel above.
\<close>

record 'a menu_view =
  treeData_menu :: "'a menu_tree_node list"
  searchKeyword :: string
  searchResults :: "'a menu_tree_node list"
  isSearching :: bool
  expandedMenuIds :: "string set"

text \<open>\<^verbatim>\<open>toggleNodeExpanded(menu)\<close> and \<^verbatim>\<open>hasChildren(menu)\<close>.\<close>

definition toggleNodeExpanded :: "'a menu_tree_node \<Rightarrow> 'a menu_view \<Rightarrow> 'a menu_view" where
  "toggleNodeExpanded menu v =
     (if menu_id menu \<in> expandedMenuIds v
      then v\<lparr>expandedMenuIds := expandedMenuIds v - {menu_id menu}\<rparr>
      else v\<lparr>expandedMenuIds := insert (menu_id menu) (expandedMenuIds v)\<rparr>)"

definition hasChildren :: "'a menu_tree_node \<Rightarrow> bool" where
  "hasChildren menu = (case menu_children menu of None \<Rightarrow> False | Some ch \<Rightarrow> length ch > 0)"

text \<open>
  \<^verbatim>\<open>renderTreeList(nodes, level = 0)\<close>: \<^verbatim>\<open>flatMap\<close> is \<open>concat\<close> of \<open>map\<close>; the set of expanded
  ids, read from the state in the source, is the first argument.
\<close>

fun renderTreeList :: "string set \<Rightarrow> 'a menu_tree_node list \<Rightarrow> nat \<Rightarrow> 'a tree_row list" where
  "renderTreeList expanded nodes lvl =
     concat (map (\<lambda>n.
        \<lparr>node = n, level = lvl, isNode = True\<rparr> #
        (case n of MenuTreeNode i f chs \<Rightarrow>
           (case chs of
              None \<Rightarrow> []
            | Some ch \<Rightarrow>
                if i \<in> expanded \<and> length ch > 0
                then renderTreeList expanded ch (lvl + 1) else []))) nodes)"

text \<open>
  What the statement about the flattened list refers to: every node of a forest in
  depth-first preorder with the ids of its proper ancestors (nearest first), the row
  shown for such an entry, and a node's children as a list.
\<close>

fun preorderPaths :: "string list \<Rightarrow> 'a menu_tree_node list \<Rightarrow> ('a menu_tree_node \<times> string list) list" where
  "preorderPaths anc [] = []"
| "preorderPaths anc (MenuTreeNode i f None # ns) =
     (MenuTreeNode i f None, anc) # preorderPaths anc ns"
| "preorderPaths anc (MenuTreeNode i f (Some ch) # ns) =
     (MenuTreeNode i f (Some ch), anc) # preorderPaths (i # anc) ch @ preorderPaths anc ns"

definition shownRow :: "'a menu_tree_node \<times> string list \<Rightarrow> 'a tree_row" where
  "shownRow e = \<lparr>node = fst e, level = length (snd e), isNode = True\<rparr>"

definition childList :: "'a menu_tree_node \<Rightarrow> 'a menu_tree_node list" where
  "childList n = (case menu_children n of None \<Rightarrow> [] | Some ch \<Rightarrow> ch)"

text \<open>
  Each element of a list with the element that follows it (\<open>nx\<close> after the last one),
  and "the row after \<open>x\<close> is a child of \<open>x\<close>'s node, one level deeper".
\<close>

fun withNext :: "'a list \<Rightarrow> 'a option \<Rightarrow> ('a \<times> 'a option) list" where
  "withNext [] nx = []"
| "withNext [x] nx = [(x, nx)]"
| "withNext (x # y # ys) nx = (x, Some y) # withNext (y # ys) nx"

definition childFollows :: "'a tree_row \<Rightarrow> 'a tree_row option \<Rightarrow> bool" where
  "childFollows x nx =
     (case nx of
        None \<Rightarrow> False
      | Some y \<Rightarrow> node y \<in> set (childList (node x)) \<and> level y = level x + 1)"

text \<open>
  \<^verbatim>\<open>String.prototype.trim\<close> removes white space and line terminators from both ends. Of
  those, the code points below are the ones a \<open>char\<close> can hold.
\<close>

definition isWhiteSpace :: "char \<Rightarrow> bool" where
  "isWhiteSpace c = (of_char c \<in> {9, 10, 11, 12, 13, 32, 160 :: nat})"

definition trim :: "string \<Rightarrow> string" where
  "trim s = rev (dropWhile isWhiteSpace (rev (dropWhile isWhiteSpace s)))"

text \<open>
  \<^verbatim>\<open>transformMenuData(menus)\<close> copies each menu (the spread keeps id and children) and adds
  \<^verbatim>\<open>hasChild\<close> and \<^verbatim>\<open>meta\<close>, computed from the menu's own fields: \<open>addMeta\<close> is that
  computation. \<^verbatim>\<open>autoExpandSearchResults(nodes)\<close> adds every id of the results to the
  expanded set.
\<close>

definition transformMenuData ::
  "('a menu_tree_node \<Rightarrow> 'a) \<Rightarrow> 'a menu_tree_node list \<Rightarrow> 'a menu_tree_node list" where
  "transformMenuData addMeta menus =
     map (\<lambda>menu. MenuTreeNode (menu_id menu) (addMeta menu) (menu_children menu)) menus"

fun autoExpandSearchResults :: "'a menu_tree_node list \<Rightarrow> string set \<Rightarrow> string set" where
  "autoExpandSearchResults [] expanded = expanded"
| "autoExpandSearchResults (MenuTreeNode i f None # nodes) expanded =
     autoExpandSearchResults nodes (insert i expanded)"
| "autoExpandSearchResults (MenuTreeNode i f (Some ch) # nodes) expanded =
     autoExpandSearchResults nodes
       (if length ch > 0 then autoExpandSearchResults ch (insert i expanded)
        else insert i expanded)"

text \<open>
  The watcher of \<^verbatim>\<open>searchKeyword\<close>. A blank keyword clears the results at once; otherwise a
  timer is set, and the second component is the keyword it will search for.
  \<open>setSearchKeyword\<close> is the input's \<^verbatim>\<open>v-model\<close> write followed by the watcher.
  \<open>searchTimerFired\<close> is the timer's callback once \<^verbatim>\<open>searchMenuApi\<close> has answered: with
  a result list (\<^verbatim>\<open>results || []\<close>) or by throwing.
\<close>

definition watchSearchKeyword :: "string \<Rightarrow> 'a menu_view \<Rightarrow> 'a menu_view \<times> string option" where
  "watchSearchKeyword newVal v =
     (if trim newVal = [] then (v\<lparr>searchResults := [], isSearching := False\<rparr>, None)
      else (v, Some newVal))"

definition setSearchKeyword :: "string \<Rightarrow> 'a menu_view \<Rightarrow> 'a menu_view \<times> string option" where
  "setSearchKeyword newVal v = watchSearchKeyword newVal (v\<lparr>searchKeyword := newVal\<rparr>)"

datatype 'a search_outcome =
  SearchReturned "'a menu_tree_node list option"
| SearchFailed

definition searchTimerFired ::
  "('a menu_tree_node \<Rightarrow> 'a) \<Rightarrow> 'a search_outcome \<Rightarrow> 'a menu_view \<Rightarrow> 'a menu_view" where
  "searchTimerFired addMeta outcome v =
     (case outcome of
        SearchReturned results \<Rightarrow>
          (let transformedResults =
                 transformMenuData addMeta (case results of None \<Rightarrow> [] | Some r \<Rightarrow> r)
           in v\<lparr>searchResults := transformedResults,
                expandedMenuIds :=
                  (if length transformedResults > 0
                   then autoExpandSearchResults transformedResults (expandedMenuIds v)
                   else expandedMenuIds v),
                isSearching := False\<rparr>)
      | SearchFailed \<Rightarrow> v\<lparr>searchResults := [], isSearching := False\<rparr>)"

text \<open>The computed \<^verbatim>\<open>filteredTreeData\<close> and \<^verbatim>\<open>flattenedTree\<close>.\<close>

definition filteredTreeData :: "'a menu_view \<Rightarrow> 'a menu_tree_node list" where
  "filteredTreeData v =
     (if trim (searchKeyword v) \<noteq> [] \<and> length (searchResults v) > 0
      then searchResults v else treeData_menu v)"

definition flattenedTree :: "'a menu_view \<Rightarrow> 'a tree_row list" where
  "flattenedTree v = renderTreeList (expandedMenuIds v) (filteredTreeData v) 0"

section \<open>Request client: re-authentication and error messages\<close>

text \<open>
  The three default texts of the error callback are literals that are not ASCII; they
  are the values \<open>RateLimited\<close> (status 429), \<open>Forbidden\<close> (403) and \<open>Unauthorized\<close>
  (401). A text is a string or one of these literals, which are truthy, being non-empty.
\<close>

datatype notice = RateLimited | Forbidden | Unauthorized

datatype js_text = Str string | Literal notice

text \<open>
  What the functions of \<^verbatim>\<open>request.ts\<close> do besides changing the access store: console
  output, a toast (\<^verbatim>\<open>ElMessage.error\<close>), the auth store's \<^verbatim>\<open>logout()\<close>, and the one request
  they send, \<^verbatim>\<open>refreshTokenApi(refreshToken)\<close>.
\<close>

datatype effect =
  ConsoleWarn string
| ConsoleError string
| ElMessageError js_text
| AuthLogout
| RefreshTokenRequest string



text \<open>
  The fields of the access store and of \<^verbatim>\<open>preferences.app\<close> that \<^verbatim>\<open>request.ts\<close> reads or
  writes. The store's setters assign the field they name.
\<close>

record access_store =
  accessToken :: "string option"
  refreshToken :: "string option"
  isAccessChecked :: bool
  loginExpired :: bool

record app_preferences =
  loginExpiredMode :: string
  enableRefreshToken :: bool

text \<open>
  \<^verbatim>\<open>doReAuthenticate()\<close>. \<^verbatim>\<open>authStore.logout()\<close> belongs to the auth store, which is not among
  the sources: the call is recorded as the effect \<open>AuthLogout\<close>.
\<close>

definition doReAuthenticate :: "app_preferences \<Rightarrow> access_store \<Rightarrow> access_store \<times> effect list" where
  "doReAuthenticate prefs store =
     (let warned = [ConsoleWarn ''Access token or refresh token is invalid or expired. ''];
          hadToken = (truthyStr (accessToken store) \<or> truthyStr (refreshToken store));
          store1 = store\<lparr>accessToken := None\<rparr>
      in if \<not> hadToken then (store1, warned)
         else if loginExpiredMode prefs = ''modal'' \<and> isAccessChecked store1
              then (store1\<lparr>loginExpired := True\<rparr>, warned)
              else (store1, warned @ [AuthLogout]))"






datatype 'a outcome = Returned 'a | Thrown








section \<open>API functions and the menu form's path rule\<close>

datatype http_method = GET | POST | PUT | DELETE

text \<open>
  The request client. A request is its method, its URL, its query parameters and its
  body; the client (with its interceptors and the backend behind it) answers a request
  with a response of type \<open>'r\<close>. \<open>client_get\<close> and \<open>client_put\<close> are the client's methods
  \<^verbatim>\<open>get(url, config)\<close> and \<^verbatim>\<open>put(url, data)\<close>: each sends one request, and the result pairs
  the requests sent with the response.
\<close>

record 'p request_config =
  cfg_params :: "'p option"

record ('p, 'd) client_call =
  call_method :: http_method
  call_url :: string
  call_params :: "'p option"
  call_data :: "'d option"

definition client_get ::
  "(('p, 'd) client_call \<Rightarrow> 'r) \<Rightarrow> string \<Rightarrow> 'p request_config \<Rightarrow>
     ('p, 'd) client_call list \<times> 'r" where
  "client_get client url config =
     (let c = \<lparr>call_method = GET, call_url = url, call_params = cfg_params config,
                call_data = None\<rparr>
      in ([c], client c))"

definition client_put ::
  "(('p, 'd) client_call \<Rightarrow> 'r) \<Rightarrow> string \<Rightarrow> 'd \<Rightarrow> ('p, 'd) client_call list \<times> 'r" where
  "client_put client url body =
     (let c = \<lparr>call_method = PUT, call_url = url, call_params = None, call_data = Some body\<rparr>
      in ([c], client c))"

text \<open>
  \<^verbatim>\<open>getUserListApi(params?)\<close> and \<^verbatim>\<open>updateMenuApi(menuId, data)\<close>; the template literal is the
  prefix followed by the id.
\<close>

definition getUserListApi ::
  "(('p, 'd) client_call \<Rightarrow> 'r) \<Rightarrow> 'p option \<Rightarrow> ('p, 'd) client_call list \<times> 'r" where
  "getUserListApi requestClient params =
     client_get requestClient ''/api/core/user'' \<lparr>cfg_params = params\<rparr>"

definition updateMenuApi ::
  "(('p, 'd) client_call \<Rightarrow> 'r) \<Rightarrow> string \<Rightarrow> 'd \<Rightarrow> ('p, 'd) client_call list \<times> 'r" where
  "updateMenuApi requestClient menuId body =
     client_put requestClient (''/api/core/menu/'' @ menuId) body"

text \<open>
  The path field of the menu-creation form. A promise settles with a value or is
  rejected. \<^verbatim>\<open>checkMenuPathApi\<close> is the backend's answer for a path. The rules are the
  schema \<^verbatim>\<open>z.string().min(2).max(100).refine(startsWith('/')).refine(not exists)\<close>: a value
  that is not a string fails at once, otherwise every check runs and adds its issue,
  and a rejected backend call rejects the validation. The field is accepted when the
  validation settles with no issue.
\<close>

record check_result =
  path_exists :: bool

datatype path_issue = InvalidType | MinLength | MaxLength | StartWith | AlreadyExists

definition isMenuPathExists :: "(string \<Rightarrow> check_result settled) \<Rightarrow> string \<Rightarrow> bool settled" where
  "isMenuPathExists checkMenuPathApi path =
     (case checkMenuPathApi path of
        Rejected \<Rightarrow> Rejected
      | Resolved result \<Rightarrow> Resolved (path_exists result))"

definition pathRules ::
  "(string \<Rightarrow> check_result settled) \<Rightarrow> string option \<Rightarrow> path_issue list settled" where
  "pathRules checkMenuPathApi input =
     (case input of
        None \<Rightarrow> Resolved [InvalidType]
      | Some v \<Rightarrow>
          (let issues =
                 (if length v < 2 then [MinLength] else []) @
                 (if length v > 100 then [MaxLength] else []) @
                 (if \<not> prefix ''/'' v then [StartWith] else [])
           in case isMenuPathExists checkMenuPathApi v of
                Rejected \<Rightarrow> Rejected
              | Resolved ex \<Rightarrow> Resolved (issues @ (if \<not> ex then [] else [AlreadyExists]))))"

definition pathAccepted :: "(string \<Rightarrow> check_result settled) \<Rightarrow> string option \<Rightarrow> bool" where
  "pathAccepted checkMenuPathApi input = (pathRules checkMenuPathApi input = Resolved [])"

section \<open>Permission checkboxes\<close>

text \<open>
  C5. A permission's checkbox is checked exactly when its id is in \<open>selectedPermissions\<close>;
  \<open>togglePermission p\<close> negates the membership of \<open>p\<close>, leaves the membership of every
  other id as it was, changes nothing else of the panel, and applied twice restores the
  selection set.
\<close>

theorem togglePermission_checkbox:
  "(permissionChecked st q \<longleftrightarrow> q \<in> selectedPermissions st) \<and>
   (permissionChecked (togglePermission p st) p \<longleftrightarrow> \<not> permissionChecked st p) \<and>
   (permissionChecked (togglePermission p st) q \<longleftrightarrow>
      (if q = p then \<not> permissionChecked st p else permissionChecked st q)) \<and>
   selectedPermissions (togglePermission p (togglePermission p st)) = selectedPermissions st \<and>
   togglePermission p (togglePermission p st) = st"
  by (auto simp: permissionChecked_def togglePermission_def insert_absorb)

theorem togglePermission_checkbox_witness:
  "permissionChecked (togglePermission ''p1''
      \<lparr>treeData = [], selectedMenuIds = {}, selectedPermissions = {''p2''}, selectedMenuId = None\<rparr>) ''p1'' \<and>
   permissionChecked (togglePermission ''p1''
      \<lparr>treeData = [], selectedMenuIds = {}, selectedPermissions = {''p2''}, selectedMenuId = None\<rparr>) ''p2'' \<and>
   togglePermission ''p1'' (togglePermission ''p1''
      \<lparr>treeData = [], selectedMenuIds = {}, selectedPermissions = {''p2''}, selectedMenuId = None\<rparr>)
     = \<lparr>treeData = [], selectedMenuIds = {}, selectedPermissions = {''p2''}, selectedMenuId = None\<rparr>"
  using togglePermission_checkbox
    [of "\<lparr>treeData = [], selectedMenuIds = {}, selectedPermissions = {''p2''}, selectedMenuId = None\<rparr>"
        "''p2''" "''p1''"]
  by (simp add: permissionChecked_def)

section \<open>Delete action of the user list\<close>

text \<open>
  C10. The delete option's \<open>disabled\<close> predicate is true exactly for the row whose id is
  \<open>a0000000-0000-0000-0000-000000000001\<close>: for that row the action is never enabled,
  for every other row it is.
\<close>

theorem deleteDisabled_admin_only:
  "deleteDisabled row = (user_id row = ''a0000000-0000-0000-0000-000000000001'') \<and>
   (\<not> deleteDisabled row) = (user_id row \<noteq> ''a0000000-0000-0000-0000-000000000001'')"
  by (simp add: deleteDisabled_def)

theorem deleteDisabled_admin_only_witness:
  "deleteDisabled \<lparr>user_id = ''a0000000-0000-0000-0000-000000000001'', username = ''admin''\<rparr> \<and>
   \<not> deleteDisabled \<lparr>user_id = ''a0000000-0000-0000-0000-000000000002'', username = ''guest''\<rparr>"
  using deleteDisabled_admin_only
      [of "\<lparr>user_id = ''a0000000-0000-0000-0000-000000000001'', username = ''admin''\<rparr>"]
    deleteDisabled_admin_only
      [of "\<lparr>user_id = ''a0000000-0000-0000-0000-000000000002'', username = ''guest''\<rparr>"]
  by simp

section \<open>Interval units: display and submit\<close>

lemma jsRem_zero_iff: "b \<noteq> 0 \<Longrightarrow> jsRem a b = 0 \<longleftrightarrow> b dvd a"
proof -
  assume b: "b \<noteq> 0"
  have "jsRem a b = 0 \<longleftrightarrow> a = 0 \<or> \<bar>a\<bar> mod \<bar>b\<bar> = 0"
    by (simp add: jsRem_def sgn_eq_0_iff)
  also have "\<dots> \<longleftrightarrow> \<bar>b\<bar> dvd \<bar>a\<bar>"
    by (auto simp: mod_eq_0_iff_dvd)
  finally show ?thesis by simp
qed

lemma displayed_pair:
  assumes "trigger_type job = ''interval''" and "interval_seconds job = Some s" and "s \<noteq> 0"
  shows "setFormValuesWithConversion job =
           job\<lparr>interval_unit := Some (displayUnit s),
               interval_seconds := Some (s div unitLength (displayUnit s))\<rparr>"
  using assms
  by (simp add: setFormValuesWithConversion_def truthyNum_def jsRem_zero_iff displayUnit_def
      unitLength_def Let_def)

lemma unitLength_displayUnit_dvd: "unitLength (displayUnit s) dvd s"
  by (simp add: displayUnit_def unitLength_def)

lemma toSeconds_displayed:
  assumes "trigger_type job = ''interval''" and "interval_seconds job = Some s" and "s \<noteq> 0"
  shows "toSeconds (setFormValuesWithConversion job) =
           job\<lparr>interval_unit := Some (displayUnit s), interval_seconds := Some s\<rparr>"
proof -
  have nz: "s div unitLength (displayUnit s) \<noteq> 0"
    using assms(3) unitLength_displayUnit_dvd [of s] by (auto simp: dvd_div_eq_0_iff)
  have restore_eq: "s div unitLength (displayUnit s) * unitLength (displayUnit s) = s"
    using unitLength_displayUnit_dvd [of s] by simp
  have conv: "(let unit = displayUnit s; v = s div unitLength (displayUnit s)
               in if unit = ''minutes'' then v * 60 else if unit = ''hours'' then v * 3600
                  else if unit = ''days'' then v * 86400 else v) = s"
    using restore_eq by (simp add: displayUnit_def unitLength_def Let_def split: if_splits)
  have tr: "truthyStr (Some (displayUnit s))"
    by (simp add: truthyStr_def displayUnit_def)
  show ?thesis
    using conv nz tr assms(1)
    by (simp add: displayed_pair [OF assms] toSeconds_def truthyNum_def Let_def)
qed

text \<open>
  C2. For a job with trigger type interval and stored seconds \<open>s > 0\<close>, the form shows
  the unit chosen by divisibility (days, hours, minutes, else seconds) with the value
  \<open>s\<close> divided by the unit's length, and confirming the form unchanged multiplies the
  value back: the job sent to the backend holds exactly \<open>s\<close> seconds again (and no
  \<open>interval_unit\<close>), whether it is an update or a creation.
\<close>

theorem interval_unit_round_trip:
  assumes "trigger_type job = ''interval''" and "interval_seconds job = Some s" and "0 < s"
  shows "interval_unit (setFormValuesWithConversion job) = Some (displayUnit s) \<and>
         interval_seconds (setFormValuesWithConversion job) = Some (s div unitLength (displayUnit s)) \<and>
         s div unitLength (displayUnit s) * unitLength (displayUnit s) = s \<and>
         interval_seconds (toSeconds (setFormValuesWithConversion job)) = Some s \<and>
         onConfirm True formDataId (setFormValuesWithConversion job) =
           Some (if truthyStr formDataId
                 then UpdateSchedulerJob (the formDataId) (job\<lparr>interval_unit := None\<rparr>)
                 else CreateSchedulerJob (job\<lparr>interval_unit := None\<rparr>))"
proof -
  have nz: "s \<noteq> 0" using assms(3) by simp
  let ?shown = "setFormValuesWithConversion job"
  have restore_eq: "s div unitLength (displayUnit s) * unitLength (displayUnit s) = s"
    using unitLength_displayUnit_dvd [of s] by simp
  have shown: "?shown = job\<lparr>interval_unit := Some (displayUnit s),
                 interval_seconds := Some (s div unitLength (displayUnit s))\<rparr>"
    by (rule displayed_pair [OF assms(1,2) nz])
  have sent: "toSeconds ?shown = job\<lparr>interval_unit := Some (displayUnit s), interval_seconds := Some s\<rparr>"
    by (rule toSeconds_displayed [OF assms(1,2) nz])
  have restored: "job\<lparr>interval_seconds := Some s, interval_unit := None\<rparr> = job\<lparr>interval_unit := None\<rparr>"
    using assms(2) by (cases job) simp
  have u: "interval_unit ?shown = Some (displayUnit s)"
    by (simp add: shown)
  have v: "interval_seconds ?shown = Some (s div unitLength (displayUnit s))"
    by (simp add: shown)
  have t: "interval_seconds (toSeconds ?shown) = Some s"
    by (simp only: sent) simp
  have c: "onConfirm True formDataId ?shown =
           Some (if truthyStr formDataId
                 then UpdateSchedulerJob (the formDataId) (job\<lparr>interval_unit := None\<rparr>)
                 else CreateSchedulerJob (job\<lparr>interval_unit := None\<rparr>))"
    unfolding onConfirm_def sent using restored by (simp add: Let_def)
  show ?thesis
    using u v restore_eq t c by (intro conjI)
qed

theorem interval_unit_round_trip_witness:
  "interval_unit (setFormValuesWithConversion
      \<lparr>job_id = Some ''j1'', trigger_type = ''interval'', interval_seconds = Some 7200,
       interval_unit = None\<rparr>) = Some ''hours'' \<and>
   interval_seconds (setFormValuesWithConversion
      \<lparr>job_id = Some ''j1'', trigger_type = ''interval'', interval_seconds = Some 7200,
       interval_unit = None\<rparr>) = Some 2 \<and>
   onConfirm True (Some ''j1'') (setFormValuesWithConversion
      \<lparr>job_id = Some ''j1'', trigger_type = ''interval'', interval_seconds = Some 7200,
       interval_unit = None\<rparr>) =
     Some (UpdateSchedulerJob ''j1''
       \<lparr>job_id = Some ''j1'', trigger_type = ''interval'', interval_seconds = Some 7200,
        interval_unit = None\<rparr>)"
  using interval_unit_round_trip
    [of "\<lparr>job_id = Some ''j1'', trigger_type = ''interval'', interval_seconds = Some 7200,
          interval_unit = None\<rparr>" 7200 "Some ''j1''"]
  by (simp add: displayUnit_def unitLength_def truthyStr_def)

section \<open>Cascading selection of menus\<close>

lemma fst_menuPaths: "map fst (menuPaths anc nodes) = menuIds nodes"
  by (induction anc nodes rule: menuPaths.induct) simp_all

lemma collectDescendants_eq: "collectDescendants nodes ids = ids @ menuIds nodes"
  by (induction nodes ids rule: collectDescendants.induct) simp_all

lemma menuPaths_suffix: "(d, p) \<in> set (menuPaths anc nodes) \<Longrightarrow> \<exists>pre. p = pre @ anc"
proof (induction anc nodes arbitrary: d p rule: menuPaths.induct)
  case (4 anc i ch ns)
  from "4.prems" consider "p = anc" | "(d, p) \<in> set (menuPaths (i # anc) ch)"
    | "(d, p) \<in> set (menuPaths anc (Some ns))" by auto
  then show ?case
  proof cases
    case 1 then show ?thesis by simp
  next
    case 2
    from "4.IH"(1) [OF 2] obtain pre where "p = pre @ i # anc" by blast
    then have "p = (pre @ [i]) @ anc" by simp
    then show ?thesis by blast
  next
    case 3 then show ?thesis using "4.IH"(2) by blast
  qed
qed simp_all

lemma menuPaths_length: "(d, p) \<in> set (menuPaths anc nodes) \<Longrightarrow> length p \<le> length anc + length (menuIds nodes)"
proof (induction anc nodes arbitrary: d p rule: menuPaths.induct)
  case (4 anc i ch ns)
  from "4.prems" consider "p = anc" | "(d, p) \<in> set (menuPaths (i # anc) ch)"
    | "(d, p) \<in> set (menuPaths anc (Some ns))" by auto
  then show ?case
  proof cases
    case 1 then show ?thesis by simp
  next
    case 2 from "4.IH"(1) [OF 2] show ?thesis by simp
  next
    case 3 from "4.IH"(2) [OF 3] show ?thesis by simp
  qed
qed simp_all

lemma menuPaths_under: 
  assumes "m \<in> set anc"
  shows "{d. \<exists>p. (d, p) \<in> set (menuPaths anc nodes) \<and> m \<in> set p} = set (menuIds nodes)"
proof -
  have "\<And>d p. (d, p) \<in> set (menuPaths anc nodes) \<Longrightarrow> m \<in> set p"
    using menuPaths_suffix assms by fastforce
  then have "{d. \<exists>p. (d, p) \<in> set (menuPaths anc nodes) \<and> m \<in> set p} = fst ` set (menuPaths anc nodes)"
    by force
  also have "\<dots> = set (menuIds nodes)"
    by (metis fst_menuPaths set_map)
  finally show ?thesis .
qed

lemma findAndCollect_set:
  "m \<notin> set anc \<Longrightarrow>
   set (findAndCollect m nodes ids) =
     set ids \<union> {d. \<exists>p. (d, p) \<in> set (menuPaths anc nodes) \<and> m \<in> set p}"
proof (induction anc nodes arbitrary: ids rule: menuPaths.induct)
  case (4 anc i ch ns)
  show ?case
  proof (cases "i = m")
    case True
    have under: "{d. \<exists>p. (d, p) \<in> set (menuPaths (m # anc) ch) \<and> m \<in> set p} = set (menuIds ch)"
      by (rule menuPaths_under) simp
    show ?thesis
      using True "4.prems" under "4.IH"(2) [OF "4.prems", of "collectDescendants ch ids"]
      by (auto simp: collectDescendants_eq)
  next
    case False
    then have "m \<notin> set (i # anc)" using "4.prems" by simp
    from "4.IH"(1) [OF this, of ids] "4.IH"(2) [OF "4.prems", of "findAndCollect m ch ids"] False "4.prems"
    show ?thesis by auto
  qed
qed simp_all

lemma getDescendantMenuIds_set: "set (getDescendantMenuIds td m) = descendantsOf td m"
  using findAndCollect_set [of m "[]" "Some td" "[]"]
  by (force simp: getDescendantMenuIds_def descendantsOf_def)

lemma menuPaths_parent:
  "(d, a # rest) \<in> set (menuPaths anc nodes) \<Longrightarrow>
     a # rest = anc \<or> (a, rest) \<in> set (menuPaths anc nodes)"
proof (induction anc nodes arbitrary: d rule: menuPaths.induct)
  case (4 anc i ch ns)
  from "4.prems" consider "a # rest = anc" | "(d, a # rest) \<in> set (menuPaths (i # anc) ch)"
    | "(d, a # rest) \<in> set (menuPaths anc (Some ns))" by auto
  then show ?case
  proof cases
    case 1 then show ?thesis by simp
  next
    case 2 from "4.IH"(1) [OF 2] show ?thesis by auto
  next
    case 3 from "4.IH"(2) [OF 3] show ?thesis by auto
  qed
qed simp_all

lemma menuPaths_ancestor:
  "(d, pre @ a # rest) \<in> set (menuPaths [] nodes) \<Longrightarrow> (a, rest) \<in> set (menuPaths [] nodes)"
proof (induction pre arbitrary: d)
  case Nil
  then show ?case using menuPaths_parent [of d a rest "[]" nodes] by simp
next
  case (Cons x pre)
  from Cons.prems menuPaths_parent [of d x "pre @ a # rest" "[]" nodes]
  have "(x, pre @ a # rest) \<in> set (menuPaths [] nodes)" by simp
  then show ?case by (rule Cons.IH)
qed

lemma findParent_search:
  "findParent fuel td nodes t (hdOpt anc) acc =
     (case map_of (menuPaths anc nodes) t of
        None \<Rightarrow> Some (False, acc)
      | Some p \<Rightarrow> restart fuel td (hdOpt p) acc)"
proof (induction anc nodes arbitrary: acc rule: menuPaths.induct)
  case (4 anc i ch ns)
  show ?case
  proof (cases "i = t")
    case True
    then show ?thesis by (simp add: restart_def)
  next
    case False
    have ih1: "findParent fuel td ch t (Some i) acc =
       (case map_of (menuPaths (i # anc) ch) t of
          None \<Rightarrow> Some (False, acc)
        | Some p \<Rightarrow> restart fuel td (hdOpt p) acc)"
      using "4.IH"(1) [of acc] by (simp add: hdOpt_def)
    show ?thesis
    proof (cases "map_of (menuPaths (i # anc) ch) t")
      case None
      then show ?thesis using False ih1 "4.IH"(2) [of acc]
        by (simp add: map_add_def split: option.splits)
    next
      case (Some p)
      have r: "restart fuel td (hdOpt p) acc = None \<or> (\<exists>a. restart fuel td (hdOpt p) acc = Some (True, a))"
        by (auto simp: restart_def split: nat.splits option.splits)
      then show ?thesis using False ih1 Some
        by (auto simp: map_add_def split: option.splits)
    qed
  qed
qed simp_all

lemma hdOpt_simps [simp]: "hdOpt [] = None" "hdOpt (x # xs) = Some x"
  by (simp_all add: hdOpt_def)

lemma ancestorsOf_iff:
  "a \<in> ancestorsOf td m \<longleftrightarrow> (\<exists>p. (m, p) \<in> set (menuPaths [] (Some td)) \<and> a \<in> set p)"
  by (force simp: ancestorsOf_def)

lemma descendantsOf_iff:
  "d \<in> descendantsOf td m \<longleftrightarrow> (\<exists>p. (d, p) \<in> set (menuPaths [] (Some td)) \<and> m \<in> set p)"
  by (force simp: descendantsOf_def)

lemma descendantsOf_ancestorsOf: "d \<in> descendantsOf td a \<longleftrightarrow> a \<in> ancestorsOf td d"
  by (simp add: ancestorsOf_iff descendantsOf_iff)

lemma ancestorClosed_iff:
  "ancestorClosed td sel \<longleftrightarrow> (\<forall>d a. d \<in> sel \<longrightarrow> a \<in> ancestorsOf td d \<longrightarrow> a \<in> sel)"
  by (fastforce simp: ancestorClosed_def list_all_iff ancestorsOf_iff)

lemma menuPaths_unique:
  assumes "distinct (menuIds (Some td))"
    and "(d, p) \<in> set (menuPaths [] (Some td))" and "(d, q) \<in> set (menuPaths [] (Some td))"
  shows "p = q"
proof -
  have "distinct (map fst (menuPaths [] (Some td)))"
    using assms(1) by (simp add: fst_menuPaths)
  then show ?thesis using assms(2,3) by (rule eq_key_imp_eq_value)
qed

lemma menuPaths_ids:
  "(d, p) \<in> set (menuPaths anc nodes) \<Longrightarrow> set p \<subseteq> set anc \<union> set (menuIds nodes)"
proof (induction anc nodes arbitrary: d p rule: menuPaths.induct)
  case (4 anc i ch ns)
  from "4.prems" consider "p = anc" | "(d, p) \<in> set (menuPaths (i # anc) ch)"
    | "(d, p) \<in> set (menuPaths anc (Some ns))" by auto
  then show ?case
  proof cases
    case 1 then show ?thesis by auto
  next
    case 2 from "4.IH"(1) [OF 2] show ?thesis by auto
  next
    case 3 from "4.IH"(2) [OF 3] show ?thesis by auto
  qed
qed simp_all

lemma ancestor_irrefl:
  assumes "distinct (menuIds (Some td))"
  shows "a \<notin> ancestorsOf td a"
proof
  assume "a \<in> ancestorsOf td a"
  then obtain p where p: "(a, p) \<in> set (menuPaths [] (Some td))" and "a \<in> set p"
    by (auto simp: ancestorsOf_iff)
  then obtain pre rest where split: "p = pre @ a # rest" by (auto simp: in_set_conv_decomp)
  with p have "(a, rest) \<in> set (menuPaths [] (Some td))"
    using menuPaths_ancestor by blast
  with p have "p = rest" using menuPaths_unique [OF assms] by blast
  with split show False by simp
qed

lemma ancestor_trans:
  assumes "distinct (menuIds (Some td))"
    and "a \<in> ancestorsOf td b" and "b \<in> ancestorsOf td c"
  shows "a \<in> ancestorsOf td c"
proof -
  from assms(3) obtain p where p: "(c, p) \<in> set (menuPaths [] (Some td))" and "b \<in> set p"
    by (auto simp: ancestorsOf_iff)
  then obtain pre rest where split: "p = pre @ b # rest" by (auto simp: in_set_conv_decomp)
  with p have b: "(b, rest) \<in> set (menuPaths [] (Some td))"
    using menuPaths_ancestor by blast
  from assms(2) obtain q where q: "(b, q) \<in> set (menuPaths [] (Some td))" and "a \<in> set q"
    by (auto simp: ancestorsOf_iff)
  with b have "a \<in> set rest" using menuPaths_unique [OF assms(1)] by blast
  with split p show ?thesis by (auto simp: ancestorsOf_iff)
qed

lemma ancestor_comparable:
  assumes "distinct (menuIds (Some td))"
    and "a \<in> ancestorsOf td d" and "m \<in> ancestorsOf td d"
  shows "a = m \<or> a \<in> ancestorsOf td m \<or> m \<in> ancestorsOf td a"
proof -
  from assms(3) obtain p where p: "(d, p) \<in> set (menuPaths [] (Some td))" and "m \<in> set p"
    by (auto simp: ancestorsOf_iff)
  then obtain pre rest where split: "p = pre @ m # rest" by (auto simp: in_set_conv_decomp)
  from assms(2) obtain q where "(d, q) \<in> set (menuPaths [] (Some td))" and "a \<in> set q"
    by (auto simp: ancestorsOf_iff)
  with p have "a \<in> set p" using menuPaths_unique [OF assms(1)] by blast
  with split consider "a \<in> set pre" | "a = m" | "a \<in> set rest" by auto
  then show ?thesis
  proof cases
    case 1
    then obtain pre1 pre2 where "pre = pre1 @ a # pre2" by (auto simp: in_set_conv_decomp)
    with split have "p = pre1 @ a # (pre2 @ m # rest)" by simp
    with p have "(a, pre2 @ m # rest) \<in> set (menuPaths [] (Some td))"
      using menuPaths_ancestor by blast
    then show ?thesis by (auto simp: ancestorsOf_iff)
  next
    case 2 then show ?thesis by simp
  next
    case 3
    from p split have "(m, rest) \<in> set (menuPaths [] (Some td))"
      using menuPaths_ancestor by blast
    with 3 show ?thesis by (auto simp: ancestorsOf_iff)
  qed
qed

lemma findParent_chain:
  assumes "distinct (menuIds (Some td))"
  shows "map_of (menuPaths [] (Some td)) t = Some p \<Longrightarrow> [] \<notin> set p \<Longrightarrow> length p \<le> fuel \<Longrightarrow>
         findParent fuel td (Some td) t None acc = Some (True, acc @ p)"
proof (induction p arbitrary: t acc fuel)
  case Nil
  then show ?case
    using findParent_search [of fuel td "Some td" t "[]" acc]
    by (simp add: restart_def truthyStr_def)
next
  case (Cons a rest)
  from Cons.prems(3) obtain k where fuel: "fuel = Suc k" and k: "length rest \<le> k"
    by (cases fuel) auto
  from Cons.prems(1) have "(t, a # rest) \<in> set (menuPaths [] (Some td))"
    by (rule map_of_SomeD)
  then have "(a, rest) \<in> set (menuPaths [] (Some td))"
    using menuPaths_parent [of t a rest "[]" "Some td"] by simp
  moreover have "distinct (map fst (menuPaths [] (Some td)))"
    using assms by (simp add: fst_menuPaths)
  ultimately have "map_of (menuPaths [] (Some td)) a = Some rest"
    by (simp add: map_of_is_SomeI)
  from Cons.IH [OF this _ k, of "acc @ [a]"] Cons.prems(2)
  have "findParent k td (Some td) a None (acc @ [a]) = Some (True, acc @ a # rest)"
    by simp
  moreover have "a \<noteq> []" using Cons.prems(2) by auto
  ultimately show ?case
    using findParent_search [of fuel td "Some td" t "[]" acc] Cons.prems(1) fuel
    by (simp add: restart_def truthyStr_def)
qed

lemma getAncestorMenuIds_eq:
  assumes "distinct (menuIds (Some td))" and "[] \<notin> ancestorsOf td m"
  shows "getAncestorMenuIds td m =
           Some (case map_of (menuPaths [] (Some td)) m of None \<Rightarrow> [] | Some p \<Rightarrow> p)"
proof (cases "map_of (menuPaths [] (Some td)) m")
  case None
  then show ?thesis
    using findParent_search [of "length (menuIds (Some td))" td "Some td" m "[]" "[]"]
    by (simp add: getAncestorMenuIds_def)
next
  case (Some p)
  then have mem: "(m, p) \<in> set (menuPaths [] (Some td))" by (rule map_of_SomeD)
  have ne: "[] \<notin> set p" using assms(2) mem by (auto simp: ancestorsOf_iff)
  have len: "length p \<le> length (menuIds (Some td))" using menuPaths_length [OF mem] by simp
  show ?thesis
    using findParent_chain [OF assms(1) Some ne len, of "[]"] Some
    by (simp add: getAncestorMenuIds_def)
qed

lemma ancestorsOf_eq:
  assumes "distinct (menuIds (Some td))"
  shows "ancestorsOf td m = (case map_of (menuPaths [] (Some td)) m of None \<Rightarrow> {} | Some p \<Rightarrow> set p)"
proof (cases "map_of (menuPaths [] (Some td)) m")
  case None
  then have "m \<notin> fst ` set (menuPaths [] (Some td))"
    by (simp add: map_of_eq_None_iff)
  then have "\<And>p. (m, p) \<notin> set (menuPaths [] (Some td))"
    by force
  then have "ancestorsOf td m = {}"
    by (simp add: set_eq_iff ancestorsOf_iff)
  then show ?thesis using None by simp
next
  case (Some p)
  then have mem: "(m, p) \<in> set (menuPaths [] (Some td))" by (rule map_of_SomeD)
  have uniq: "\<And>q. (m, q) \<in> set (menuPaths [] (Some td)) \<Longrightarrow> q = p"
    using menuPaths_unique [OF assms _ mem] by blast
  have "\<And>a. a \<in> ancestorsOf td m \<longleftrightarrow> a \<in> set p"
    unfolding ancestorsOf_iff using uniq mem by blast
  then have "ancestorsOf td m = set p" by blast
  then show ?thesis using Some by simp
qed

lemma getAncestorMenuIds_set:
  assumes "distinct (menuIds (Some td))" and "[] \<notin> ancestorsOf td m"
  shows "\<exists>anc. getAncestorMenuIds td m = Some anc \<and> set anc = ancestorsOf td m \<and>
           (anc = [] \<or> (m, anc) \<in> set (menuPaths [] (Some td)))"
proof (cases "map_of (menuPaths [] (Some td)) m")
  case None
  then show ?thesis
    using getAncestorMenuIds_eq [OF assms] ancestorsOf_eq [OF assms(1), of m] by simp
next
  case (Some p)
  then have "(m, p) \<in> set (menuPaths [] (Some td))" by (rule map_of_SomeD)
  then show ?thesis
    using Some getAncestorMenuIds_eq [OF assms] ancestorsOf_eq [OF assms(1), of m] by simp
qed

lemma fold_delete: "fold (\<lambda>id s. s - {id}) xs s = s - set xs"
  by (induction xs arbitrary: s) auto

lemma fold_insert_set: "fold insert xs s = s \<union> set xs"
  by (induction xs arbitrary: s) auto

lemma hasSelectedDescendants_iff:
  "hasSelectedDescendants td sel a \<longleftrightarrow> descendantsOf td a \<inter> sel \<noteq> {}"
  by (auto simp: hasSelectedDescendants_def list_ex_iff getDescendantMenuIds_set)

lemma uncheck_closed:
  assumes "ancestorClosed td s"
  shows "ancestorClosed td (if \<not> hasSelectedDescendants td s a then s - {a} else s)"
proof (cases "hasSelectedDescendants td s a")
  case True
  then show ?thesis using assms by simp
next
  case False
  then have none: "descendantsOf td a \<inter> s = {}"
    by (simp add: hasSelectedDescendants_iff)
  have "\<And>d b. d \<in> s - {a} \<Longrightarrow> b \<in> ancestorsOf td d \<Longrightarrow> b \<in> s - {a}"
  proof -
    fix d b assume d: "d \<in> s - {a}" and b: "b \<in> ancestorsOf td d"
    from d b assms have "b \<in> s" by (auto simp: ancestorClosed_iff)
    moreover have "b \<noteq> a"
    proof
      assume "b = a"
      with b have "d \<in> descendantsOf td a" by (simp add: descendantsOf_ancestorsOf)
      with d none show False by auto
    qed
    ultimately show "b \<in> s - {a}" by simp
  qed
  then have "ancestorClosed td (s - {a})" unfolding ancestorClosed_iff by blast
  then show ?thesis using False by simp
qed

lemma fold_uncheck_closed:
  "ancestorClosed td s \<Longrightarrow>
   ancestorClosed td
     (fold (\<lambda>a s. if \<not> hasSelectedDescendants td s a then s - {a} else s) anc s)"
proof (induction anc arbitrary: s)
  case Nil
  then show ?case by simp
next
  case (Cons a anc)
  from uncheck_closed [OF Cons.prems, of a] have
    "ancestorClosed td (if \<not> hasSelectedDescendants td s a then s - {a} else s)" .
  from Cons.IH [OF this] show ?case by simp
qed

lemma fold_uncheck_subset:
  "fold (\<lambda>a s. if \<not> hasSelectedDescendants td s a then s - {a} else s) anc s \<subseteq> s \<and>
   s - fold (\<lambda>a s. if \<not> hasSelectedDescendants td s a then s - {a} else s) anc s \<subseteq> set anc"
proof (induction anc arbitrary: s)
  case Nil
  then show ?case by simp
next
  case (Cons a anc)
  let ?s' = "if \<not> hasSelectedDescendants td s a then s - {a} else s"
  from Cons.IH [of ?s'] show ?case by (auto split: if_splits)
qed

lemma fold_uncheck_iff:
  assumes dist: "distinct (menuIds (Some td))"
  shows "(x, anc) \<in> set (menuPaths [] (Some td)) \<Longrightarrow> ancestorClosed td s \<Longrightarrow> b \<in> set anc \<Longrightarrow>
     b \<in> fold (\<lambda>a s. if \<not> hasSelectedDescendants td s a then s - {a} else s) anc s \<longleftrightarrow>
     descendantsOf td b \<inter>
       fold (\<lambda>a s. if \<not> hasSelectedDescendants td s a then s - {a} else s) anc s \<noteq> {}"
proof (induction anc arbitrary: x s)
  case Nil
  then show ?case by simp
next
  case (Cons a rest)
  let ?f = "\<lambda>a s. if \<not> hasSelectedDescendants td s a then s - {a} else s"
  let ?s' = "?f a s"
  let ?s3 = "fold ?f rest ?s'"
  have s3: "fold ?f (a # rest) s = ?s3" by simp
  have path: "(a, rest) \<in> set (menuPaths [] (Some td))"
    using menuPaths_parent [OF Cons.prems(1)] by simp
  have cl': "ancestorClosed td ?s'" by (rule uncheck_closed [OF Cons.prems(2)])
  have cl3: "ancestorClosed td ?s3" by (rule fold_uncheck_closed [OF cl'])
  have sub: "?s3 \<subseteq> ?s'" "?s' - ?s3 \<subseteq> set rest"
    using fold_uncheck_subset [of td rest ?s'] by blast+
  show ?case
  proof (cases "b \<in> set rest")
    case True
    from Cons.IH [OF path cl' True] show ?thesis unfolding s3 .
  next
    case False
    with Cons.prems(3) have ba: "b = a" by simp
    have "a \<in> ?s3 \<longleftrightarrow> descendantsOf td a \<inter> ?s3 \<noteq> {}"
    proof
      assume "descendantsOf td a \<inter> ?s3 \<noteq> {}"
      then obtain d where "d \<in> ?s3" "a \<in> ancestorsOf td d"
        by (auto simp: descendantsOf_ancestorsOf)
      with cl3 show "a \<in> ?s3" unfolding ancestorClosed_iff by blast
    next
      assume "a \<in> ?s3"
      with sub(1) have in': "a \<in> ?s'" by blast
      then have "hasSelectedDescendants td s a" by (auto split: if_splits)
      then obtain d where d: "d \<in> s" "a \<in> ancestorsOf td d"
        by (auto simp: hasSelectedDescendants_iff descendantsOf_ancestorsOf)
      have "d \<noteq> a" using ancestor_irrefl [OF dist, of a] d(2) by auto
      with d(1) have "d \<in> ?s'" by simp
      moreover have "d \<notin> set rest"
      proof
        assume "d \<in> set rest"
        with path have "d \<in> ancestorsOf td a" by (auto simp: ancestorsOf_iff)
        from ancestor_trans [OF dist d(2) this] ancestor_irrefl [OF dist, of a]
        show False by simp
      qed
      ultimately have "d \<in> ?s3" using sub(2) by blast
      with d(2) show "descendantsOf td a \<inter> ?s3 \<noteq> {}"
        by (auto simp: descendantsOf_ancestorsOf)
    qed
    then show ?thesis unfolding s3 ba .
  qed
qed

lemma select_closed:
  assumes dist: "distinct (menuIds (Some td))" and cl: "ancestorClosed td sel"
  shows "ancestorClosed td (sel \<union> {m} \<union> descendantsOf td m \<union> ancestorsOf td m)"
proof -
  have "\<And>d a. d \<in> sel \<union> {m} \<union> descendantsOf td m \<union> ancestorsOf td m \<Longrightarrow> a \<in> ancestorsOf td d
        \<Longrightarrow> a \<in> sel \<union> {m} \<union> descendantsOf td m \<union> ancestorsOf td m"
  proof -
    fix d a
    assume d: "d \<in> sel \<union> {m} \<union> descendantsOf td m \<union> ancestorsOf td m" and a: "a \<in> ancestorsOf td d"
    from d consider "d \<in> sel" | "d = m" | "m \<in> ancestorsOf td d" | "d \<in> ancestorsOf td m"
      by (auto simp: descendantsOf_ancestorsOf)
    then show "a \<in> sel \<union> {m} \<union> descendantsOf td m \<union> ancestorsOf td m"
    proof cases
      case 1 with a cl show ?thesis unfolding ancestorClosed_iff by blast
    next
      case 2 with a show ?thesis by simp
    next
      case 3
      from ancestor_comparable [OF dist a 3] show ?thesis
        by (auto simp: descendantsOf_ancestorsOf)
    next
      case 4
      from ancestor_trans [OF dist a 4] show ?thesis by simp
    qed
  qed
  then show ?thesis unfolding ancestorClosed_iff by blast
qed

lemma deselect_closed:
  assumes dist: "distinct (menuIds (Some td))" and cl: "ancestorClosed td sel"
  shows "ancestorClosed td (sel - {m} - descendantsOf td m)"
proof -
  have "\<And>d a. d \<in> sel - {m} - descendantsOf td m \<Longrightarrow> a \<in> ancestorsOf td d
        \<Longrightarrow> a \<in> sel - {m} - descendantsOf td m"
  proof -
    fix d a
    assume d: "d \<in> sel - {m} - descendantsOf td m" and a: "a \<in> ancestorsOf td d"
    from d have notunder: "m \<notin> ancestorsOf td d" by (simp add: descendantsOf_ancestorsOf)
    from d a cl have "a \<in> sel" unfolding ancestorClosed_iff by blast
    moreover have "a \<noteq> m" using a notunder by auto
    moreover have "a \<notin> descendantsOf td m"
    proof
      assume "a \<in> descendantsOf td m"
      then have "m \<in> ancestorsOf td a" by (simp add: descendantsOf_ancestorsOf)
      from ancestor_trans [OF dist this a] notunder show False by simp
    qed
    ultimately show "a \<in> sel - {m} - descendantsOf td m" by simp
  qed
  then show ?thesis unfolding ancestorClosed_iff by blast
qed

lemma takeWhile_earlier:
  "a \<in> set (takeWhile (\<lambda>x. x \<noteq> t) xs) \<Longrightarrow>
   length (takeWhile (\<lambda>x. x \<noteq> a) xs) < length (takeWhile (\<lambda>x. x \<noteq> t) xs)"
  by (induction xs) (auto split: if_splits)

lemma map_of_menuPaths_None:
  "map_of (menuPaths anc nodes) t = None \<longleftrightarrow> t \<notin> set (menuIds nodes)"
  by (metis fst_menuPaths map_of_eq_None_iff set_map)

lemma parent_earlier:
  "map_of (menuPaths anc nodes) t = Some (a # rest) \<Longrightarrow>
     a # rest = anc \<or> a \<in> set (takeWhile (\<lambda>x. x \<noteq> t) (menuIds nodes))"
proof (induction anc nodes rule: menuPaths.induct)
  case (4 anc i ch ns)
  show ?case
  proof (cases "i = t")
    case True
    with "4.prems" show ?thesis by simp
  next
    case False
    show ?thesis
    proof (cases "map_of (menuPaths (i # anc) ch) t")
      case None
      then have notin: "t \<notin> set (menuIds ch)" by (simp add: map_of_menuPaths_None)
      from None "4.prems" False have "map_of (menuPaths anc (Some ns)) t = Some (a # rest)"
        by (simp add: map_add_def)
      moreover have "takeWhile (\<lambda>x. x \<noteq> t) (menuIds ch @ menuIds (Some ns)) =
          menuIds ch @ takeWhile (\<lambda>x. x \<noteq> t) (menuIds (Some ns))"
        using notin by (intro takeWhile_append2) auto
      ultimately show ?thesis using "4.IH"(2) False by auto
    next
      case (Some p)
      then have isin: "t \<in> set (menuIds ch)"
        using map_of_menuPaths_None [of "i # anc" ch t] by auto
      from Some "4.prems" False have "map_of (menuPaths (i # anc) ch) t = Some (a # rest)"
        by (simp add: map_add_def)
      moreover have "takeWhile (\<lambda>x. x \<noteq> t) (menuIds ch @ menuIds (Some ns)) =
          takeWhile (\<lambda>x. x \<noteq> t) (menuIds ch)"
        using isin by (intro takeWhile_append1 [of t]) auto
      ultimately show ?thesis using "4.IH"(1) False by auto
    qed
  qed
qed simp_all

lemma findParent_returns:
  "length (takeWhile (\<lambda>x. x \<noteq> t) (menuIds (Some td))) \<le> fuel \<Longrightarrow>
   findParent fuel td (Some td) t None acc \<noteq> None"
proof (induction fuel arbitrary: t acc)
  case 0
  show ?case
  proof (cases "map_of (menuPaths [] (Some td)) t")
    case None
    then show ?thesis using findParent_search [of 0 td "Some td" t "[]" acc] by simp
  next
    case (Some p)
    have "hdOpt p = None \<or> hdOpt p = Some []"
    proof (cases p)
      case Nil then show ?thesis by simp
    next
      case (Cons a rest)
      with Some parent_earlier [of "[]" "Some td" t a rest] "0.prems" show ?thesis by auto
    qed
    then show ?thesis
      using Some findParent_search [of 0 td "Some td" t "[]" acc]
      by (auto simp: restart_def truthyStr_def)
  qed
next
  case (Suc k)
  show ?case
  proof (cases "map_of (menuPaths [] (Some td)) t")
    case None
    then show ?thesis using findParent_search [of "Suc k" td "Some td" t "[]" acc] by simp
  next
    case (Some p)
    show ?thesis
    proof (cases p)
      case Nil
      with Some show ?thesis
        using findParent_search [of "Suc k" td "Some td" t "[]" acc]
        by (simp add: restart_def truthyStr_def)
    next
      case (Cons a rest)
      with Some parent_earlier [of "[]" "Some td" t a rest]
      have "a \<in> set (takeWhile (\<lambda>x. x \<noteq> t) (menuIds (Some td)))" by simp
      from takeWhile_earlier [OF this] Suc.prems
      have "length (takeWhile (\<lambda>x. x \<noteq> a) (menuIds (Some td))) \<le> k" by simp
      from Suc.IH [OF this, of "acc @ [a]"]
      obtain r where "findParent k td (Some td) a None (acc @ [a]) = Some r" by auto
      with Some Cons show ?thesis
        using findParent_search [of "Suc k" td "Some td" t "[]" acc]
        by (auto simp: restart_def truthyStr_def split: prod.splits)
    qed
  qed
qed

text \<open>
  The search never runs out of fuel, whatever the tree (ids may even repeat): each
  restart looks for an id that first occurs strictly earlier in document order. So
  \<open>getAncestorMenuIds\<close> and \<open>toggleMenu\<close> always return.
\<close>

lemma getAncestorMenuIds_total: "\<exists>ancestors. getAncestorMenuIds td menuId = Some ancestors"
proof -
  have "length (takeWhile (\<lambda>x. x \<noteq> menuId) (menuIds (Some td))) \<le> length (menuIds (Some td))"
    by (rule length_takeWhile_le)
  from findParent_returns [OF this, of "[]"] show ?thesis
    by (auto simp: getAncestorMenuIds_def)
qed

lemma toggleMenu_total: "\<exists>st'. toggleMenu menuId st = Some st'"
  using getAncestorMenuIds_total [of "treeData st" menuId]
  by (auto simp: toggleMenu_def Let_def)

text \<open>
  C1. On a tree whose menu ids are pairwise distinct, and a selection closed under
  ancestors, \<open>toggleMenu m\<close> returns and keeps the closure. Menu ids are issued by the
  backend and are not empty; of that, the theorem needs only that no ancestor of \<open>m\<close>
  has the empty id (\<^verbatim>\<open>if (parentId)\<close> is the test for "has a parent"). If \<open>m\<close> was
  unselected, then afterwards \<open>m\<close>, its descendants and its ancestors are selected
  (and nothing else was added). If \<open>m\<close> was selected, then
  afterwards \<open>m\<close> and its descendants are unselected, each ancestor of \<open>m\<close> is selected
  exactly if one of its descendants still is, and nothing outside \<open>m\<close>, its descendants
  and its ancestors changed.
\<close>

theorem toggleMenu_cascade:
  assumes wf: "distinct (menuIds (Some (treeData st)))"
    and ne: "[] \<notin> ancestorsOf (treeData st) m"
    and cl: "ancestorClosed (treeData st) (selectedMenuIds st)"
  shows "\<exists>st'. toggleMenu m st = Some st' \<and>
           treeData st' = treeData st \<and>
           selectedPermissions st' = selectedPermissions st \<and>
           ancestorClosed (treeData st) (selectedMenuIds st') \<and>
           (if m \<in> selectedMenuIds st then
              m \<notin> selectedMenuIds st' \<and>
              descendantsOf (treeData st) m \<inter> selectedMenuIds st' = {} \<and>
              (\<forall>a \<in> ancestorsOf (treeData st) m.
                 a \<in> selectedMenuIds st' \<longleftrightarrow>
                 descendantsOf (treeData st) a \<inter> selectedMenuIds st' \<noteq> {}) \<and>
              selectedMenuIds st' \<subseteq> selectedMenuIds st \<and>
              selectedMenuIds st - selectedMenuIds st' \<subseteq>
                {m} \<union> descendantsOf (treeData st) m \<union> ancestorsOf (treeData st) m
            else
              m \<in> selectedMenuIds st' \<and>
              descendantsOf (treeData st) m \<subseteq> selectedMenuIds st' \<and>
              ancestorsOf (treeData st) m \<subseteq> selectedMenuIds st' \<and>
              selectedMenuIds st' =
                selectedMenuIds st \<union> {m} \<union> descendantsOf (treeData st) m \<union>
                ancestorsOf (treeData st) m)"
proof -
  let ?td = "treeData st" and ?sel = "selectedMenuIds st"
  let ?D = "descendantsOf ?td m" and ?A = "ancestorsOf ?td m"
  from getAncestorMenuIds_set [OF wf ne] obtain anc where
    anc: "getAncestorMenuIds ?td m = Some anc" and set_anc: "set anc = ?A" and
    path: "anc = [] \<or> (m, anc) \<in> set (menuPaths [] (Some ?td))"
    by blast
  show ?thesis
  proof (cases "m \<in> ?sel")
    case False
    let ?s' = "?sel \<union> {m} \<union> ?D \<union> ?A"
    have sets: "fold insert anc (fold insert (getDescendantMenuIds ?td m) (insert m ?sel)) = ?s'"
      unfolding fold_insert_set getDescendantMenuIds_set set_anc by blast
    have res: "toggleMenu m st = Some (st\<lparr>selectedMenuIds := ?s'\<rparr>)"
      unfolding toggleMenu_def Let_def anc using False sets by simp
    have closed: "ancestorClosed ?td ?s'" by (rule select_closed [OF wf cl])
    have body: "m \<in> ?s' \<and> ?D \<subseteq> ?s' \<and> ?A \<subseteq> ?s' \<and> ?s' = ?sel \<union> {m} \<union> ?D \<union> ?A"
      by blast
    have sel': "selectedMenuIds (st\<lparr>selectedMenuIds := ?s'\<rparr>) = ?s'" by simp
    show ?thesis
    proof (rule exI [of _ "st\<lparr>selectedMenuIds := ?s'\<rparr>"], intro conjI)
      show "toggleMenu m st = Some (st\<lparr>selectedMenuIds := ?s'\<rparr>)" by (rule res)
      show "treeData (st\<lparr>selectedMenuIds := ?s'\<rparr>) = ?td" by simp
      show "selectedPermissions (st\<lparr>selectedMenuIds := ?s'\<rparr>) = selectedPermissions st" by simp
      show "ancestorClosed ?td (selectedMenuIds (st\<lparr>selectedMenuIds := ?s'\<rparr>))"
        unfolding sel' by (rule closed)
      show "if m \<in> ?sel then
              m \<notin> selectedMenuIds (st\<lparr>selectedMenuIds := ?s'\<rparr>) \<and>
              ?D \<inter> selectedMenuIds (st\<lparr>selectedMenuIds := ?s'\<rparr>) = {} \<and>
              (\<forall>a \<in> ?A. a \<in> selectedMenuIds (st\<lparr>selectedMenuIds := ?s'\<rparr>) \<longleftrightarrow>
                 descendantsOf ?td a \<inter> selectedMenuIds (st\<lparr>selectedMenuIds := ?s'\<rparr>) \<noteq> {}) \<and>
              selectedMenuIds (st\<lparr>selectedMenuIds := ?s'\<rparr>) \<subseteq> ?sel \<and>
              ?sel - selectedMenuIds (st\<lparr>selectedMenuIds := ?s'\<rparr>) \<subseteq> {m} \<union> ?D \<union> ?A
            else
              m \<in> selectedMenuIds (st\<lparr>selectedMenuIds := ?s'\<rparr>) \<and>
              ?D \<subseteq> selectedMenuIds (st\<lparr>selectedMenuIds := ?s'\<rparr>) \<and>
              ?A \<subseteq> selectedMenuIds (st\<lparr>selectedMenuIds := ?s'\<rparr>) \<and>
              selectedMenuIds (st\<lparr>selectedMenuIds := ?s'\<rparr>) = ?sel \<union> {m} \<union> ?D \<union> ?A"
        unfolding if_not_P [OF False] sel' using body .
    qed
  next
    case True
    let ?f = "\<lambda>a s. if \<not> hasSelectedDescendants ?td s a then s - {a} else s"
    let ?s2 = "?sel - {m} - ?D"
    let ?s3 = "fold ?f anc ?s2"
    let ?st' = "st\<lparr>selectedMenuIds := ?s3,
                 selectedMenuId := (if selectedMenuId st = Some m then None else selectedMenuId st)\<rparr>"
    have sets: "fold (\<lambda>id s. s - {id}) (getDescendantMenuIds ?td m) (?sel - {m}) = ?s2"
      unfolding fold_delete getDescendantMenuIds_set ..
    have res: "toggleMenu m st = Some ?st'"
      unfolding toggleMenu_def Let_def anc sets using True by simp
    have cl2: "ancestorClosed ?td ?s2" by (rule deselect_closed [OF wf cl])
    have cl3: "ancestorClosed ?td ?s3" by (rule fold_uncheck_closed [OF cl2])
    have sub: "?s3 \<subseteq> ?s2" "?s2 - ?s3 \<subseteq> set anc"
      using fold_uncheck_subset [of ?td anc ?s2] by blast+
    have iff: "\<forall>a \<in> ?A. a \<in> ?s3 \<longleftrightarrow> descendantsOf ?td a \<inter> ?s3 \<noteq> {}"
    proof
      fix a assume "a \<in> ?A"
      then have a: "a \<in> set anc" using set_anc by simp
      then have "(m, anc) \<in> set (menuPaths [] (Some ?td))" using path by auto
      from fold_uncheck_iff [OF wf this cl2 a]
      show "a \<in> ?s3 \<longleftrightarrow> descendantsOf ?td a \<inter> ?s3 \<noteq> {}" .
    qed
    have m: "m \<notin> ?s3" using sub(1) by blast
    have d: "?D \<inter> ?s3 = {}" using sub(1) by blast
    have s1: "?s3 \<subseteq> ?sel" using sub(1) by blast
    have s2: "?sel - ?s3 \<subseteq> {m} \<union> ?D \<union> ?A" using sub(2) set_anc by blast
    have sel': "selectedMenuIds ?st' = ?s3" by simp
    show ?thesis
    proof (rule exI [of _ ?st'], intro conjI)
      show "toggleMenu m st = Some ?st'" by (rule res)
      show "treeData ?st' = ?td" by simp
      show "selectedPermissions ?st' = selectedPermissions st" by simp
      show "ancestorClosed ?td (selectedMenuIds ?st')" unfolding sel' by (rule cl3)
      show "if m \<in> ?sel then
              m \<notin> selectedMenuIds ?st' \<and>
              ?D \<inter> selectedMenuIds ?st' = {} \<and>
              (\<forall>a \<in> ?A. a \<in> selectedMenuIds ?st' \<longleftrightarrow>
                 descendantsOf ?td a \<inter> selectedMenuIds ?st' \<noteq> {}) \<and>
              selectedMenuIds ?st' \<subseteq> ?sel \<and>
              ?sel - selectedMenuIds ?st' \<subseteq> {m} \<union> ?D \<union> ?A
            else
              m \<in> selectedMenuIds ?st' \<and>
              ?D \<subseteq> selectedMenuIds ?st' \<and>
              ?A \<subseteq> selectedMenuIds ?st' \<and>
              selectedMenuIds ?st' = ?sel \<union> {m} \<union> ?D \<union> ?A"
        unfolding if_P [OF True] sel' using m d iff s1 s2 by (intro conjI)
    qed
  qed
qed

theorem toggleMenu_cascade_witness:
  "\<exists>st'. toggleMenu ''user''
       \<lparr>treeData = [MenuNode ''sys'' (Some [MenuNode ''user'' (Some [PermissionNode ''p1'']),
                                             MenuNode ''role'' None]),
                    MenuNode ''log'' None],
        selectedMenuIds = {''sys'', ''user''}, selectedPermissions = {}, selectedMenuId = None\<rparr>
       = Some st' \<and>
     ''user'' \<notin> selectedMenuIds st' \<and>
     (''sys'' \<in> selectedMenuIds st') =
       (descendantsOf [MenuNode ''sys'' (Some [MenuNode ''user'' (Some [PermissionNode ''p1'']),
                                             MenuNode ''role'' None]),
                    MenuNode ''log'' None] ''sys'' \<inter> selectedMenuIds st' \<noteq> {})"
proof -
  let ?td = "[MenuNode ''sys'' (Some [MenuNode ''user'' (Some [PermissionNode ''p1'']),
                                             MenuNode ''role'' None]),
                    MenuNode ''log'' None]"
  let ?st = "\<lparr>treeData = ?td, selectedMenuIds = {''sys'', ''user''}, selectedPermissions = {},
              selectedMenuId = None\<rparr>"
  have wf: "distinct (menuIds (Some (treeData ?st)))" by simp
  have ne: "[] \<notin> ancestorsOf (treeData ?st) ''user''" by (simp add: ancestorsOf_def)
  have cl: "ancestorClosed (treeData ?st) (selectedMenuIds ?st)"
    by (simp add: ancestorClosed_def)
  have anc: "''sys'' \<in> ancestorsOf ?td ''user''" by (simp add: ancestorsOf_def)
  from toggleMenu_cascade [OF wf ne cl] anc show ?thesis
    by auto
qed

text \<open>
  Why the theorem asks for non-empty ancestor ids: \<^verbatim>\<open>if (parentId)\<close> takes a parent whose id
  is the empty string for no parent, so below that parent the chain of ancestors stops.
  A menu with the empty id that has no children does no harm.
\<close>

lemma toggleMenu_empty_parent_id:
  "distinct (menuIds (Some [MenuNode [] (Some [MenuNode ''a'' None])])) \<and>
   ancestorClosed [MenuNode [] (Some [MenuNode ''a'' None])] {} \<and>
   [] \<in> ancestorsOf [MenuNode [] (Some [MenuNode ''a'' None])] ''a'' \<and>
   toggleMenu ''a''
     \<lparr>treeData = [MenuNode [] (Some [MenuNode ''a'' None])], selectedMenuIds = {},
      selectedPermissions = {}, selectedMenuId = None\<rparr> =
     Some \<lparr>treeData = [MenuNode [] (Some [MenuNode ''a'' None])], selectedMenuIds = {''a''},
           selectedPermissions = {}, selectedMenuId = None\<rparr> \<and>
   [] \<notin> {''a''} \<and>
   \<not> ancestorClosed [MenuNode [] (Some [MenuNode ''a'' None])] {''a''}"
  by (simp add: ancestorClosed_def ancestorsOf_def toggleMenu_def getAncestorMenuIds_def
      getDescendantMenuIds_def truthyStr_def)

lemma toggleMenu_empty_leaf_id:
  "toggleMenu []
     \<lparr>treeData = [MenuNode ''r'' (Some [MenuNode [] None])], selectedMenuIds = {},
      selectedPermissions = {}, selectedMenuId = None\<rparr> =
     Some \<lparr>treeData = [MenuNode ''r'' (Some [MenuNode [] None])], selectedMenuIds = {''r'', []},
           selectedPermissions = {}, selectedMenuId = None\<rparr> \<and>
   ancestorClosed [MenuNode ''r'' (Some [MenuNode [] None])] {''r'', []}"
  by (simp add: ancestorClosed_def toggleMenu_def getAncestorMenuIds_def
      getDescendantMenuIds_def truthyStr_def insert_commute)

section \<open>Menu tree view: flattening and search fallback\<close>

lemma renderTreeList_Nil: "renderTreeList expanded [] lvl = []"
  by simp

lemma renderTreeList_Cons:
  "renderTreeList expanded (n # ns) lvl =
     \<lparr>node = n, level = lvl, isNode = True\<rparr> #
     (if menu_id n \<in> expanded \<and> childList n \<noteq> []
      then renderTreeList expanded (childList n) (lvl + 1) else []) @
     renderTreeList expanded ns lvl"
  by (cases n) (simp add: childList_def split: option.splits)

declare renderTreeList.simps [simp del]

lemma preorderPaths_suffix:
  "(n, p) \<in> set (preorderPaths anc nodes) \<Longrightarrow> \<exists>pre. p = pre @ anc"
proof (induction anc nodes arbitrary: n p rule: preorderPaths.induct)
  case (3 anc i f ch ns)
  from "3.prems" consider "p = anc" | "(n, p) \<in> set (preorderPaths (i # anc) ch)"
    | "(n, p) \<in> set (preorderPaths anc ns)" by auto
  then show ?case
  proof cases
    case 1 then show ?thesis by simp
  next
    case 2
    from "3.IH"(1) [OF 2] obtain pre where "p = pre @ i # anc" by blast
    then have "p = (pre @ [i]) @ anc" by simp
    then show ?thesis by blast
  next
    case 3 then show ?thesis using "3.IH"(2) by blast
  qed
qed auto

lemma collapsed_hidden:
  assumes "\<not> set anc \<subseteq> expanded"
  shows "filter (\<lambda>e. set (snd e) \<subseteq> expanded) (preorderPaths anc nodes) = []"
proof -
  have "\<And>n p. (n, p) \<in> set (preorderPaths anc nodes) \<Longrightarrow> \<not> set p \<subseteq> expanded"
    using preorderPaths_suffix assms by fastforce
  then show ?thesis by (auto simp: filter_empty_conv)
qed

lemma renderTreeList_visible:
  "set anc \<subseteq> expanded \<Longrightarrow>
   renderTreeList expanded nodes (length anc) =
     map shownRow (filter (\<lambda>e. set (snd e) \<subseteq> expanded) (preorderPaths anc nodes))"
proof (induction anc nodes rule: preorderPaths.induct)
  case (1 anc)
  then show ?case by (simp add: renderTreeList_Nil)
next
  case (2 anc i f ns)
  then show ?case by (simp add: renderTreeList_Cons childList_def shownRow_def)
next
  case (3 anc i f ch ns)
  show ?case
  proof (cases "i \<in> expanded")
    case True
    then have "set (i # anc) \<subseteq> expanded" using "3.prems" by simp
    from "3.IH"(1) [OF this] "3.IH"(2) [OF "3.prems"] True "3.prems" show ?thesis
      by (cases ch) (simp_all add: renderTreeList_Cons renderTreeList_Nil childList_def shownRow_def)
  next
    case False
    then have "\<not> set (i # anc) \<subseteq> expanded" by simp
    from collapsed_hidden [OF this, of ch] "3.IH"(2) [OF "3.prems"] False "3.prems" show ?thesis
      by (simp add: renderTreeList_Cons childList_def shownRow_def)
  qed
qed

lemma withNext_Cons:
  "withNext (x # xs) nx = (x, case xs of [] \<Rightarrow> nx | y # _ \<Rightarrow> Some y) # withNext xs nx"
  by (cases xs) simp_all

lemma withNext_append:
  "withNext (xs @ ys) nx = withNext xs (case ys of [] \<Rightarrow> nx | y # _ \<Rightarrow> Some y) @ withNext ys nx"
proof (induction xs)
  case Nil
  then show ?case by simp
next
  case (Cons x xs)
  then show ?case by (cases xs; cases ys) (simp_all add: withNext_Cons)
qed

lemma renderTreeList_first:
  "renderTreeList expanded nodes lvl = y # ys \<Longrightarrow> level y = lvl \<and> node y \<in> set nodes"
  by (cases nodes) (auto simp: renderTreeList_Nil renderTreeList_Cons)

lemma child_follows_iff:
  "nx0 = None \<or> (\<exists>y. nx0 = Some y \<and> level y \<le> lvl) \<Longrightarrow>
   (x, nx) \<in> set (withNext (renderTreeList expanded nodes lvl) nx0) \<Longrightarrow>
   childFollows x nx \<longleftrightarrow> (menu_id (node x) \<in> expanded \<and> childList (node x) \<noteq> [])"
  for anc :: "string list"
proof (induction anc nodes arbitrary: lvl nx0 rule: preorderPaths.induct)
  case (1 anc)
  then show ?case by (simp add: renderTreeList_Nil)
next
  case (2 anc i f ns)
  let ?n = "MenuTreeNode i f None"
  let ?R = "renderTreeList expanded ns lvl"
  let ?nxR = "case ?R of [] \<Rightarrow> nx0 | y # _ \<Rightarrow> Some y"
  have F: "renderTreeList expanded (?n # ns) lvl = \<lparr>node = ?n, level = lvl, isNode = True\<rparr> # ?R"
    by (simp add: renderTreeList_Cons childList_def)
  from "2.prems"(2) consider "x = \<lparr>node = ?n, level = lvl, isNode = True\<rparr> \<and> nx = ?nxR"
    | "(x, nx) \<in> set (withNext ?R nx0)"
    unfolding F withNext_Cons by auto
  then show ?case
  proof cases
    case 1
    have "\<not> childFollows \<lparr>node = ?n, level = lvl, isNode = True\<rparr> ?nxR"
      by (simp add: childFollows_def childList_def split: option.splits)
    with 1 show ?thesis by (simp add: childList_def)
  next
    case 2
    from "2.IH" [OF "2.prems"(1) 2] show ?thesis .
  qed
next
  case (3 anc i f ch ns)
  let ?n = "MenuTreeNode i f (Some ch)"
  let ?row = "\<lparr>node = ?n, level = lvl, isNode = True\<rparr>"
  let ?C = "if i \<in> expanded \<and> ch \<noteq> [] then renderTreeList expanded ch (lvl + 1) else []"
  let ?R = "renderTreeList expanded ns lvl"
  let ?nxR = "case ?R of [] \<Rightarrow> nx0 | y # _ \<Rightarrow> Some y"
  let ?nxC = "case ?C @ ?R of [] \<Rightarrow> nx0 | y # _ \<Rightarrow> Some y"
  have F: "renderTreeList expanded (?n # ns) lvl = ?row # ?C @ ?R"
    by (simp add: renderTreeList_Cons childList_def)
  have nxR: "?nxR = None \<or> (\<exists>y. ?nxR = Some y \<and> level y \<le> lvl)"
  proof (cases ?R)
    case Nil
    then show ?thesis using "3.prems"(1) by simp
  next
    case (Cons y ys)
    then show ?thesis using renderTreeList_first [OF Cons] by simp
  qed
  from "3.prems"(2) consider "x = ?row \<and> nx = ?nxC"
    | "(x, nx) \<in> set (withNext ?C ?nxR)"
    | "(x, nx) \<in> set (withNext ?R nx0)"
    unfolding F withNext_Cons withNext_append by auto
  then show ?case
  proof cases
    case 1
    show ?thesis
    proof (cases "i \<in> expanded \<and> ch \<noteq> []")
      case True
      then obtain c cs where ch: "ch = c # cs" by (cases ch) auto
      have "renderTreeList expanded ch (lvl + 1) \<noteq> []"
        unfolding ch by (simp add: renderTreeList_Cons)
      then obtain y ys where C: "renderTreeList expanded ch (lvl + 1) = y # ys"
        by (cases "renderTreeList expanded ch (lvl + 1)") auto
      from renderTreeList_first [OF C] have "level y = lvl + 1" "node y \<in> set ch" by simp_all
      then have "childFollows ?row ?nxC"
        using True C by (simp add: childFollows_def childList_def)
      with 1 True show ?thesis by (simp add: childList_def)
    next
      case False
      then have C: "?C = []" by auto
      have "\<not> childFollows ?row ?nxR"
      proof (cases ?R)
        case Nil
        then show ?thesis using "3.prems"(1)
          by (auto simp: childFollows_def)
      next
        case (Cons y ys)
        then show ?thesis using renderTreeList_first [OF Cons]
          by (simp add: childFollows_def)
      qed
      with 1 False C show ?thesis by (auto simp: childList_def)
    qed
  next
    case 2
    then have exp: "i \<in> expanded \<and> ch \<noteq> []" by (auto split: if_splits)
    with 2 have mem: "(x, nx) \<in> set (withNext (renderTreeList expanded ch (lvl + 1)) ?nxR)"
      by simp
    have "?nxR = None \<or> (\<exists>y. ?nxR = Some y \<and> level y \<le> lvl + 1)"
      using nxR by auto
    from "3.IH"(1) [OF this mem] show ?thesis .
  next
    case 3
    from "3.IH"(2) [OF "3.prems"(1) 3] show ?thesis .
  qed
qed

text \<open>
  C4. \<open>renderTreeList\<close> from level 0 is the depth-first preorder list of exactly the
  nodes whose proper ancestors' ids are all expanded, each with its depth. In that list,
  the row after a node's row is a child of that node (one level deeper) exactly if the
  node's id is expanded and it has children; at every node the rows of the expanded
  children come first and the rows of the next siblings after them.
\<close>

theorem renderTreeList_preorder_visible:
  "renderTreeList expanded nodes 0 =
     map shownRow (filter (\<lambda>e. set (snd e) \<subseteq> expanded) (preorderPaths [] nodes)) \<and>
   (\<forall>(x, nx) \<in> set (withNext (renderTreeList expanded nodes 0) None).
      childFollows x nx \<longleftrightarrow> (menu_id (node x) \<in> expanded \<and> childList (node x) \<noteq> [])) \<and>
   renderTreeList expanded (n # ns) lvl =
     \<lparr>node = n, level = lvl, isNode = True\<rparr> #
     (if menu_id n \<in> expanded \<and> childList n \<noteq> []
      then renderTreeList expanded (childList n) (lvl + 1) else []) @
     renderTreeList expanded ns lvl"
proof -
  have follows: "\<forall>(x, nx) \<in> set (withNext (renderTreeList expanded nodes 0) None).
      childFollows x nx \<longleftrightarrow> (menu_id (node x) \<in> expanded \<and> childList (node x) \<noteq> [])"
    using child_follows_iff [of None 0 _ _ expanded nodes] by auto
  show ?thesis
    using renderTreeList_visible [of "[]" expanded nodes] follows
      renderTreeList_Cons [of expanded n ns lvl]
    by simp
qed

theorem renderTreeList_preorder_visible_witness:
  "renderTreeList {''a''}
     [MenuTreeNode ''a'' () (Some [MenuTreeNode ''b'' () (Some [MenuTreeNode ''c'' () None])]),
      MenuTreeNode ''d'' () None] 0 =
     [\<lparr>node = MenuTreeNode ''a'' () (Some [MenuTreeNode ''b'' () (Some [MenuTreeNode ''c'' () None])]),
       level = 0, isNode = True\<rparr>,
      \<lparr>node = MenuTreeNode ''b'' () (Some [MenuTreeNode ''c'' () None]), level = 1, isNode = True\<rparr>,
      \<lparr>node = MenuTreeNode ''d'' () None, level = 0, isNode = True\<rparr>] \<and>
   childFollows
     \<lparr>node = MenuTreeNode ''a'' () (Some [MenuTreeNode ''b'' () (Some [MenuTreeNode ''c'' () None])]),
      level = 0, isNode = True\<rparr>
     (Some \<lparr>node = MenuTreeNode ''b'' () (Some [MenuTreeNode ''c'' () None]), level = 1,
            isNode = True\<rparr>) \<and>
   \<not> childFollows
     \<lparr>node = MenuTreeNode ''b'' () (Some [MenuTreeNode ''c'' () None]), level = 1, isNode = True\<rparr>
     (Some \<lparr>node = MenuTreeNode ''d'' () None, level = 0, isNode = True\<rparr>)"
proof -
  let ?tree = "[MenuTreeNode ''a'' () (Some [MenuTreeNode ''b'' () (Some [MenuTreeNode ''c'' () None])]),
          MenuTreeNode ''d'' () None]"
  have shown: "renderTreeList {''a''} ?tree 0 =
     [\<lparr>node = MenuTreeNode ''a'' () (Some [MenuTreeNode ''b'' () (Some [MenuTreeNode ''c'' () None])]),
       level = 0, isNode = True\<rparr>,
      \<lparr>node = MenuTreeNode ''b'' () (Some [MenuTreeNode ''c'' () None]), level = 1, isNode = True\<rparr>,
      \<lparr>node = MenuTreeNode ''d'' () None, level = 0, isNode = True\<rparr>]"
    using renderTreeList_preorder_visible [of "{''a''}" ?tree "MenuTreeNode ''d'' () None" "[]" 0]
    by (simp add: shownRow_def)
  from renderTreeList_preorder_visible [of "{''a''}" ?tree "MenuTreeNode ''d'' () None" "[]" 0]
  have "\<forall>(x, nx) \<in> set (withNext (renderTreeList {''a''} ?tree 0) None).
      childFollows x nx \<longleftrightarrow> (menu_id (node x) \<in> {''a''} \<and> childList (node x) \<noteq> [])"
    by blast
  then have "childFollows
     \<lparr>node = MenuTreeNode ''a'' () (Some [MenuTreeNode ''b'' () (Some [MenuTreeNode ''c'' () None])]),
      level = 0, isNode = True\<rparr>
     (Some \<lparr>node = MenuTreeNode ''b'' () (Some [MenuTreeNode ''c'' () None]), level = 1,
            isNode = True\<rparr>) \<and>
   \<not> childFollows
     \<lparr>node = MenuTreeNode ''b'' () (Some [MenuTreeNode ''c'' () None]), level = 1, isNode = True\<rparr>
     (Some \<lparr>node = MenuTreeNode ''d'' () None, level = 0, isNode = True\<rparr>)"
    unfolding shown by (simp add: childList_def)
  with shown show ?thesis by simp
qed

lemma toggleNodeExpanded_flips:
  "menu_id menu \<in> expandedMenuIds (toggleNodeExpanded menu v) \<longleftrightarrow>
     menu_id menu \<notin> expandedMenuIds v"
  by (simp add: toggleNodeExpanded_def)

lemma hasChildren_childList: "hasChildren menu \<longleftrightarrow> childList menu \<noteq> []"
  by (simp add: hasChildren_def childList_def split: option.splits)

lemma trim_empty_iff: "trim s = [] \<longleftrightarrow> list_all isWhiteSpace s"
proof
  assume "list_all isWhiteSpace s"
  then have dw: "dropWhile isWhiteSpace s = []" by (simp add: list_all_iff)
  show "trim s = []" unfolding trim_def dw by simp
next
  assume "trim s = []"
  then have all: "\<forall>c \<in> set (dropWhile isWhiteSpace s). isWhiteSpace c"
    by (simp add: trim_def dropWhile_eq_Nil_conv)
  have "dropWhile isWhiteSpace s = []"
  proof (rule ccontr)
    assume ne: "dropWhile isWhiteSpace s \<noteq> []"
    then have "\<not> isWhiteSpace (hd (dropWhile isWhiteSpace s))" by (rule hd_dropWhile)
    moreover have "hd (dropWhile isWhiteSpace s) \<in> set (dropWhile isWhiteSpace s)"
      using ne by simp
    ultimately show False using all by blast
  qed
  then show "list_all isWhiteSpace s" by (simp add: list_all_iff dropWhile_eq_Nil_conv)
qed

lemma filteredTreeData_eq:
  "filteredTreeData v =
     (if list_all isWhiteSpace (searchKeyword v) \<or> searchResults v = []
      then treeData_menu v else searchResults v)"
  by (simp add: filteredTreeData_def trim_empty_iff)

lemma searchResults_returned:
  "searchResults (searchTimerFired addMeta (SearchReturned results) v) = [] \<longleftrightarrow>
     results = None \<or> results = Some []"
  by (cases results) (simp_all add: searchTimerFired_def transformMenuData_def Let_def)

text \<open>
  C8 (amended). The displayed tree is the loaded tree whenever the keyword is blank or the
  search results are empty (the backend returned no result, or the search failed), and
  the search results only for a non-blank keyword with a non-empty result list. So the
  display is empty only if the loaded tree itself is empty.
\<close>

theorem filteredTreeData_fallback:
  "filteredTreeData v =
     (if list_all isWhiteSpace (searchKeyword v) \<or> searchResults v = []
      then treeData_menu v else searchResults v) \<and>
   (filteredTreeData v = []) =
     (treeData_menu v = [] \<and> (list_all isWhiteSpace (searchKeyword v) \<or> searchResults v = [])) \<and>
   (searchResults (searchTimerFired addMeta (SearchReturned results) v) = []) =
     (results = None \<or> results = Some []) \<and>
   filteredTreeData (searchTimerFired addMeta (SearchReturned None) v) = treeData_menu v \<and>
   filteredTreeData (searchTimerFired addMeta (SearchReturned (Some [])) v) = treeData_menu v \<and>
   filteredTreeData (searchTimerFired addMeta SearchFailed v) = treeData_menu v \<and>
   (if list_all isWhiteSpace kw
    then filteredTreeData (fst (setSearchKeyword kw v)) = treeData_menu v \<and>
         snd (setSearchKeyword kw v) = None
    else fst (setSearchKeyword kw v) = v\<lparr>searchKeyword := kw\<rparr> \<and>
         snd (setSearchKeyword kw v) = Some kw)"
proof -
  have a: "(filteredTreeData v = []) =
     (treeData_menu v = [] \<and> (list_all isWhiteSpace (searchKeyword v) \<or> searchResults v = []))"
    by (auto simp: filteredTreeData_eq)
  have b: "filteredTreeData (searchTimerFired addMeta (SearchReturned None) v) = treeData_menu v"
    by (simp add: filteredTreeData_eq searchTimerFired_def transformMenuData_def)
  have c: "filteredTreeData (searchTimerFired addMeta (SearchReturned (Some [])) v) = treeData_menu v"
    by (simp add: filteredTreeData_eq searchTimerFired_def transformMenuData_def)
  have d: "filteredTreeData (searchTimerFired addMeta SearchFailed v) = treeData_menu v"
    by (simp add: filteredTreeData_eq searchTimerFired_def)
  have e: "if list_all isWhiteSpace kw
    then filteredTreeData (fst (setSearchKeyword kw v)) = treeData_menu v \<and>
         snd (setSearchKeyword kw v) = None
    else fst (setSearchKeyword kw v) = v\<lparr>searchKeyword := kw\<rparr> \<and>
         snd (setSearchKeyword kw v) = Some kw"
    by (simp add: setSearchKeyword_def watchSearchKeyword_def trim_empty_iff filteredTreeData_eq)
  show ?thesis
    using filteredTreeData_eq [of v] a searchResults_returned [of addMeta results v] b c d e
    by (intro conjI)
qed

theorem filteredTreeData_fallback_witness:
  "filteredTreeData
     \<lparr>treeData_menu = [MenuTreeNode ''m1'' () None], searchKeyword = ''  '',
      searchResults = [MenuTreeNode ''m2'' () None], isSearching = False, expandedMenuIds = {}\<rparr>
     = [MenuTreeNode ''m1'' () None] \<and>
   filteredTreeData
     \<lparr>treeData_menu = [MenuTreeNode ''m1'' () None], searchKeyword = ''x'',
      searchResults = [MenuTreeNode ''m2'' () None], isSearching = False, expandedMenuIds = {}\<rparr>
     = [MenuTreeNode ''m2'' () None]"
  using filteredTreeData_fallback
      [of "\<lparr>treeData_menu = [MenuTreeNode ''m1'' () None], searchKeyword = ''  '',
            searchResults = [MenuTreeNode ''m2'' () None], isSearching = False,
            expandedMenuIds = {}\<rparr>" menu_fields None "[]"]
    filteredTreeData_fallback
      [of "\<lparr>treeData_menu = [MenuTreeNode ''m1'' () None], searchKeyword = ''x'',
            searchResults = [MenuTreeNode ''m2'' () None], isSearching = False,
            expandedMenuIds = {}\<rparr>" menu_fields None "[]"]
  by (simp add: isWhiteSpace_def)

text \<open>
  C8 as stated ends with "an unmatched search never yields an empty display": with
  nothing loaded, a search that matches nothing shows the (empty) loaded tree.
\<close>

theorem unmatched_search_empty_tree_counterexample:
  "\<not> list_all isWhiteSpace ''x'' \<and>
   filteredTreeData
     (searchTimerFired menu_fields (SearchReturned (Some []))
        \<lparr>treeData_menu = [], searchKeyword = ''x'', searchResults = [], isSearching = True,
         expandedMenuIds = {}\<rparr>) = ([] :: unit menu_tree_node list)"
  by (simp add: isWhiteSpace_def filteredTreeData_def searchTimerFired_def transformMenuData_def)

section \<open>Error messages of the request client\<close>



text \<open>
  C9. \<open>doReAuthenticate\<close> always leaves the access token null. If neither an access
  token nor a refresh token was held, it does nothing else: no logout, and login is
  not marked expired. If one was held, it marks login expired (mode \<open>modal\<close> with access
  checked) and does not log out, or else logs out.
\<close>

theorem doReAuthenticate_tokens:
  "accessToken (fst (doReAuthenticate prefs store)) = None \<and>
   (if truthyStr (accessToken store) \<or> truthyStr (refreshToken store)
    then (if loginExpiredMode prefs = ''modal'' \<and> isAccessChecked store
          then fst (doReAuthenticate prefs store) = store\<lparr>accessToken := None, loginExpired := True\<rparr> \<and>
               AuthLogout \<notin> set (snd (doReAuthenticate prefs store))
          else fst (doReAuthenticate prefs store) = store\<lparr>accessToken := None\<rparr> \<and>
               AuthLogout \<in> set (snd (doReAuthenticate prefs store)))
    else fst (doReAuthenticate prefs store) = store\<lparr>accessToken := None\<rparr> \<and>
         AuthLogout \<notin> set (snd (doReAuthenticate prefs store)) \<and>
         loginExpired (fst (doReAuthenticate prefs store)) = loginExpired store)"
  by (simp add: doReAuthenticate_def Let_def)

theorem doReAuthenticate_tokens_witness:
  "doReAuthenticate \<lparr>loginExpiredMode = ''page'', enableRefreshToken = True\<rparr>
     \<lparr>accessToken = None, refreshToken = None, isAccessChecked = False, loginExpired = False\<rparr> =
     (\<lparr>accessToken = None, refreshToken = None, isAccessChecked = False, loginExpired = False\<rparr>,
      [ConsoleWarn ''Access token or refresh token is invalid or expired. '']) \<and>
   AuthLogout \<in> set (snd (doReAuthenticate \<lparr>loginExpiredMode = ''page'', enableRefreshToken = True\<rparr>
     \<lparr>accessToken = Some ''t'', refreshToken = None, isAccessChecked = True, loginExpired = False\<rparr>)) \<and>
   loginExpired (fst (doReAuthenticate \<lparr>loginExpiredMode = ''modal'', enableRefreshToken = True\<rparr>
     \<lparr>accessToken = Some ''t'', refreshToken = None, isAccessChecked = True, loginExpired = False\<rparr>))"
  using doReAuthenticate_tokens
      [of "\<lparr>loginExpiredMode = ''page'', enableRefreshToken = True\<rparr>"
          "\<lparr>accessToken = None, refreshToken = None, isAccessChecked = False, loginExpired = False\<rparr>"]
    doReAuthenticate_tokens
      [of "\<lparr>loginExpiredMode = ''page'', enableRefreshToken = True\<rparr>"
          "\<lparr>accessToken = Some ''t'', refreshToken = None, isAccessChecked = True, loginExpired = False\<rparr>"]
    doReAuthenticate_tokens
      [of "\<lparr>loginExpiredMode = ''modal'', enableRefreshToken = True\<rparr>"
          "\<lparr>accessToken = Some ''t'', refreshToken = None, isAccessChecked = True, loginExpired = False\<rparr>"]
  by (simp add: truthyStr_def doReAuthenticate_def)








section \<open>API functions and the path rule\<close>

text \<open>
  C6. \<open>getUserListApi\<close> sends exactly one request, a GET to \<open>/api/core/user\<close> with its
  \<open>params\<close> as the query parameters, and \<open>updateMenuApi\<close> exactly one, a PUT to
  \<open>/api/core/menu/\<close> followed by the menu id with its input as the body; each returns
  the client's response to that request as it is.
\<close>

theorem api_clients_forward:
  "getUserListApi requestClient params =
     ([\<lparr>call_method = GET, call_url = ''/api/core/user'', call_params = params,
        call_data = None\<rparr>],
      requestClient \<lparr>call_method = GET, call_url = ''/api/core/user'', call_params = params,
        call_data = None\<rparr>) \<and>
   length (fst (getUserListApi requestClient params)) = 1 \<and>
   updateMenuApi requestClient menuId body =
     ([\<lparr>call_method = PUT, call_url = ''/api/core/menu/'' @ menuId, call_params = None,
        call_data = Some body\<rparr>],
      requestClient \<lparr>call_method = PUT, call_url = ''/api/core/menu/'' @ menuId,
        call_params = None, call_data = Some body\<rparr>) \<and>
   length (fst (updateMenuApi requestClient menuId body)) = 1"
  by (simp add: getUserListApi_def updateMenuApi_def client_get_def client_put_def Let_def)

theorem api_clients_forward_witness:
  "getUserListApi (\<lambda>c. call_url c) (Some (1::nat)) =
     ([\<lparr>call_method = GET, call_url = ''/api/core/user'', call_params = Some 1,
        call_data = (None :: string option)\<rparr>],
      ''/api/core/user'') \<and>
   snd (updateMenuApi (\<lambda>c :: (nat, string) client_call. call_url c) ''m7'' ''body'') =
     ''/api/core/menu/m7''"
  using api_clients_forward
    [of "\<lambda>c :: (nat, string) client_call. call_url c" "Some 1" "''m7''" "''body''"]
  by simp

text \<open>
  C7. The path field accepts a string exactly when it has between 2 and 100 characters,
  starts with \<open>/\<close> and the backend's check answers that the path does not exist; a
  string outside the length bounds or not starting with \<open>/\<close> is never accepted.
\<close>

theorem pathRules_accepts:
  "pathAccepted checkMenuPathApi (Some v) =
     (2 \<le> length v \<and> length v \<le> 100 \<and> prefix ''/'' v \<and>
      checkMenuPathApi v = Resolved \<lparr>path_exists = False\<rparr>) \<and>
   (pathAccepted checkMenuPathApi (Some v) \<and>
      (length v < 2 \<or> 100 < length v \<or> \<not> prefix ''/'' v)) = False"
proof -
  have "checkMenuPathApi v = Resolved \<lparr>path_exists = False\<rparr> \<longleftrightarrow>
          isMenuPathExists checkMenuPathApi v = Resolved False"
    by (cases "checkMenuPathApi v") (auto simp: isMenuPathExists_def)
  then have acc: "pathAccepted checkMenuPathApi (Some v) =
     (2 \<le> length v \<and> length v \<le> 100 \<and> prefix ''/'' v \<and>
      checkMenuPathApi v = Resolved \<lparr>path_exists = False\<rparr>)"
    by (cases "isMenuPathExists checkMenuPathApi v")
       (auto simp: pathAccepted_def pathRules_def Let_def)
  then show ?thesis by auto
qed

theorem pathRules_accepts_witness:
  "pathAccepted (\<lambda>p. Resolved \<lparr>path_exists = False\<rparr>) (Some ''/system'') \<and>
   \<not> pathAccepted (\<lambda>p. Resolved \<lparr>path_exists = False\<rparr>) (Some ''system'') \<and>
   \<not> pathAccepted (\<lambda>p. Resolved \<lparr>path_exists = False\<rparr>) (Some ''/'') \<and>
   \<not> pathAccepted (\<lambda>p. Resolved \<lparr>path_exists = True\<rparr>) (Some ''/system'')"
  using pathRules_accepts [of "\<lambda>p. Resolved \<lparr>path_exists = False\<rparr>" "''/system''"]
    pathRules_accepts [of "\<lambda>p. Resolved \<lparr>path_exists = False\<rparr>" "''system''"]
    pathRules_accepts [of "\<lambda>p. Resolved \<lparr>path_exists = False\<rparr>" "''/''"]
    pathRules_accepts [of "\<lambda>p. Resolved \<lparr>path_exists = True\<rparr>" "''/system''"]
  by simp

end
